theory Spec2Isabelle
  imports Complex_Main "HOL-Library.Multiset"
begin

section \<open>Invisible Maze: the game logic of client/script.js\<close>

subsection \<open>Data model\<close>

text \<open>
  Directions are the four strings \<^verbatim>\<open>'top'\<close>, \<^verbatim>\<open>'bottom'\<close>, \<^verbatim>\<open>'left'\<close>, \<^verbatim>\<open>'right'\<close>.
  A wall object \<^verbatim>\<open>{x, y, dir}\<close> carries one of them; the generator only ever stores
  \<^verbatim>\<open>'bottom'\<close> and \<^verbatim>\<open>'right'\<close>.
\<close>

datatype dir = DTop | DBottom | DLeft | DRight

text \<open>A cell object \<^verbatim>\<open>{x, y}\<close>; JavaScript numbers holding integers.\<close>

datatype pos = Pos (pos_x: int) (pos_y: int)

datatype wall = Wall (wall_x: int) (wall_y: int) (wall_dir: dir)

datatype difficulty = EASY | MEDIUM | HARD

datatype mode = PRACTICE | CHALLENGE

datatype config = Config (cfg_size: int) (cfg_walls: int) (cfg_name: string)

text \<open>The table \<^verbatim>\<open>CONFIG\<close> of the source.\<close>

fun CONFIG :: "difficulty \<Rightarrow> config" where
  "CONFIG EASY = Config 3 2 ''EASY''"
| "CONFIG MEDIUM = Config 4 6 ''MEDIUM''"
| "CONFIG HARD = Config 5 12 ''HARD''"

datatype screen = ScreenStart | ScreenGame | ScreenSuccess | ScreenInstructions

text \<open>
  What the page is told to do (DOM writes, alerts, storage, timers), in the order the
  code does it. The rendering itself is not modelled; only the fact that it was asked for.
\<close>

datatype effect =
    RenderGrid
  | UpdateStats
  | FlashBackground
  | ClearTimer
  | StartTimer
  | FinalAttempts int
  | FinalScore int
  | SaveScore int difficulty mode
  | ShowScreen screen
  | HideScreen screen
  | Alert

text \<open>
  The global object \<^verbatim>\<open>STATE\<close>. Revealed walls are the strings \<^verbatim>\<open>"x,y,dir"\<close>; such a
  string determines the triple it was printed from, so the triple stands for it.
  \<open>timerInterval\<close> says whether a timer handle is stored (the handle itself is the
  browser's). The last field is the trace of effects, which the source has in the page.
\<close>

record STATE =
  difficulty :: difficulty
  mode :: mode
  gridSize :: int
  avatarPos :: pos
  keyPos :: pos
  doorPos :: pos
  hasKey :: bool
  attempts :: int
  startTime :: int
  walls :: "wall list"
  revealedWalls :: "wall list"
  currentLevel :: int
  isPlaying :: bool
  timerInterval :: bool
  effects :: "effect list"

subsection \<open>Walls and connectivity\<close>

text \<open>\<^verbatim>\<open>hasWall(x, y, moveDir)\<close>: the canonical wall crossed when leaving (x, y).\<close>

fun hasWall :: "STATE \<Rightarrow> int \<Rightarrow> int \<Rightarrow> dir \<Rightarrow> bool" where
  "hasWall s cx cy DRight =
     list_ex (\<lambda>w. wall_x w = cx \<and> wall_y w = cy \<and> wall_dir w = DRight) (walls s)"
| "hasWall s cx cy DLeft =
     list_ex (\<lambda>w. wall_x w = cx - 1 \<and> wall_y w = cy \<and> wall_dir w = DRight) (walls s)"
| "hasWall s cx cy DBottom =
     list_ex (\<lambda>w. wall_x w = cx \<and> wall_y w = cy \<and> wall_dir w = DBottom) (walls s)"
| "hasWall s cx cy DTop =
     list_ex (\<lambda>w. wall_x w = cx \<and> wall_y w = cy - 1 \<and> wall_dir w = DBottom) (walls s)"

text \<open>The array \<^verbatim>\<open>dirs\<close> of \<^verbatim>\<open>hasPath\<close>: (dx, dy, dir), in the source's order.\<close>

definition dirs :: "(int \<times> int \<times> dir) list" where
  "dirs = [(0, -1, DTop), (0, 1, DBottom), (-1, 0, DLeft), (1, 0, DRight)]"

text \<open>
  The body of the inner \<^verbatim>\<open>for (const d of dirs)\<close> loop, on the pair (queue, visited).
  The visited \<^verbatim>\<open>Set\<close> holds the strings \<^verbatim>\<open>"x,y"\<close>, that is, cells; a JavaScript
  \<^verbatim>\<open>Set\<close> keeps its elements in insertion order, so it is a list here, and
  \<^verbatim>\<open>add\<close> is only ever called on a cell that \<^verbatim>\<open>has\<close> did not find.
\<close>

fun visit :: "STATE \<Rightarrow> pos \<Rightarrow> int \<times> int \<times> dir \<Rightarrow> pos list \<times> pos list \<Rightarrow> pos list \<times> pos list" where
  "visit s cur (dx, dy, d) (queue, visited) =
     (let nx = pos_x cur + dx; ny = pos_y cur + dy in
      if nx \<ge> 0 \<and> nx < gridSize s \<and> ny \<ge> 0 \<and> ny < gridSize s then
        if \<not> hasWall s (pos_x cur) (pos_y cur) d then
          if Pos nx ny \<notin> set visited then (queue @ [Pos nx ny], visited @ [Pos nx ny])
          else (queue, visited)
        else (queue, visited)
      else (queue, visited))"

text \<open>
  The \<^verbatim>\<open>while (queue.length > 0)\<close> loop of \<^verbatim>\<open>hasPath\<close>. \<open>None\<close> is a loop that never
  ends.
\<close>

partial_function (option) hasPath_loop :: "STATE \<Rightarrow> pos \<Rightarrow> pos list \<Rightarrow> pos list \<Rightarrow> bool option" where
  "hasPath_loop s goal queue visited =
     (case queue of
        [] \<Rightarrow> Some False
      | cur # rest \<Rightarrow>
          if pos_x cur = pos_x goal \<and> pos_y cur = pos_y goal then Some True
          else (case fold (visit s cur) dirs (rest, visited) of
                  (queue', visited') \<Rightarrow> hasPath_loop s goal queue' visited'))"

declare hasPath_loop.simps [code]

definition hasPath :: "STATE \<Rightarrow> pos \<Rightarrow> pos \<Rightarrow> bool option" where
  "hasPath s start goal = hasPath_loop s goal [start] [start]"

text \<open>\<^verbatim>\<open>isSolvable()\<close>: start to key, and then key to door.\<close>

definition isSolvable :: "STATE \<Rightarrow> bool option" where
  "isSolvable s =
     (case hasPath s (avatarPos s) (keyPos s) of
        None \<Rightarrow> None
      | Some canReachKey \<Rightarrow>
          if \<not> canReachKey then Some False else hasPath s (keyPos s) (doorPos s))"

subsection \<open>Level generation\<close>

text \<open>
  \<^verbatim>\<open>Math.random()\<close> is a sequence \<open>rnd\<close> of reals; \<open>rnd i\<close> is the result of the i-th
  call. The \<^verbatim>\<open>do ... while\<close> loop that places the key: the body runs, then the test.
\<close>

partial_function (option) keyLoop :: "(nat \<Rightarrow> real) \<Rightarrow> nat \<Rightarrow> STATE \<Rightarrow> STATE option" where
  "keyLoop rnd i s =
     (let s' = s\<lparr>keyPos := Pos \<lfloor>rnd i * of_int (gridSize s)\<rfloor>
                                \<lfloor>rnd (i + 1) * of_int (gridSize s)\<rfloor>\<rparr> in
      if (pos_x (keyPos s') = pos_x (avatarPos s') \<and> pos_y (keyPos s') = pos_y (avatarPos s')) \<or>
         (pos_x (keyPos s') = pos_x (doorPos s') \<and> pos_y (keyPos s') = pos_y (doorPos s'))
      then keyLoop rnd (i + 2) s'
      else Some s')"

declare keyLoop.simps [code]

text \<open>The two nested \<^verbatim>\<open>for\<close> loops that fill \<^verbatim>\<open>possibleWalls\<close>.\<close>

definition possibleWalls :: "int \<Rightarrow> wall list" where
  "possibleWalls n =
     concat (map (\<lambda>cy. map (\<lambda>cx. Wall cx cy DBottom) [0..n - 1]) [0..n - 2]) @
     concat (map (\<lambda>cx. map (\<lambda>cy. Wall cx cy DRight) [0..n - 1]) [0..n - 2])"

text \<open>
  The loop \<^verbatim>\<open>for (const wall of possibleWalls)\<close>: the candidates still to come, and
  \<^verbatim>\<open>addedWalls\<close>.
\<close>

fun addWalls :: "int \<Rightarrow> wall list \<Rightarrow> int \<Rightarrow> STATE \<Rightarrow> STATE option" where
  "addWalls targetWalls [] addedWalls s = Some s"
| "addWalls targetWalls (w # rest) addedWalls s =
     (if addedWalls \<ge> targetWalls then Some s
      else
        let s1 = s\<lparr>walls := walls s @ [w]\<rparr> in
        case isSolvable s1 of
          None \<Rightarrow> None
        | Some solvable \<Rightarrow>
            if \<not> solvable then addWalls targetWalls rest addedWalls (s1\<lparr>walls := butlast (walls s1)\<rparr>)
            else addWalls targetWalls rest (addedWalls + 1) s1)"

text \<open>
  \<^verbatim>\<open>generateLevel()\<close>. The table \<^verbatim>\<open>CONFIG\<close> is the parameter \<open>cfg\<close>, since levels can be
  added to it. \<^verbatim>\<open>possibleWalls.sort(() => Math.random() - 0.5)\<close> leaves the array in an
  order that depends on the engine's sorting algorithm and on the random numbers: the
  parameter \<open>shuffle\<close> is the array after the sort.
\<close>

definition generateLevel ::
  "(difficulty \<Rightarrow> config) \<Rightarrow> (nat \<Rightarrow> real) \<Rightarrow> (wall list \<Rightarrow> wall list) \<Rightarrow> STATE \<Rightarrow> STATE option" where
  "generateLevel cfg rnd shuffle s =
     (let n = gridSize s;
          s1 = s\<lparr>avatarPos := Pos 0 (n - 1)\<rparr>;
          s2 = s1\<lparr>doorPos := Pos (n - 1) 0\<rparr>
      in case keyLoop rnd 0 s2 of
           None \<Rightarrow> None
         | Some s3 \<Rightarrow>
             let s4 = s3\<lparr>walls := []\<rparr>;
                 candidates = shuffle (possibleWalls n);
                 targetWalls = cfg_walls (cfg (difficulty s4))
             in addWalls targetWalls candidates 0 s4)"

subsection \<open>Starting and ending a game\<close>

definition emit :: "effect \<Rightarrow> STATE \<Rightarrow> STATE" where
  "emit e s = s\<lparr>effects := effects s @ [e]\<rparr>"

definition selectDifficulty :: "(difficulty \<Rightarrow> config) \<Rightarrow> difficulty \<Rightarrow> STATE \<Rightarrow> STATE" where
  "selectDifficulty cfg diff s = s\<lparr>difficulty := diff, gridSize := cfg_size (cfg diff)\<rparr>"

definition setMode :: "mode \<Rightarrow> STATE \<Rightarrow> STATE" where
  "setMode m s = s\<lparr>mode := m\<rparr>"

text \<open>\<^verbatim>\<open>startGame(resetLevel)\<close>; \<open>now\<close> is \<^verbatim>\<open>Date.now()\<close>, in milliseconds.\<close>

definition startGame ::
  "(difficulty \<Rightarrow> config) \<Rightarrow> (nat \<Rightarrow> real) \<Rightarrow> (wall list \<Rightarrow> wall list) \<Rightarrow> bool \<Rightarrow> int \<Rightarrow> STATE
     \<Rightarrow> STATE option" where
  "startGame cfg rnd shuffle resetLevel now s =
     (let s1 = s\<lparr>isPlaying := True, attempts := 0, hasKey := False, revealedWalls := [],
                  startTime := now\<rparr>;
          s2 = (if resetLevel then s1\<lparr>currentLevel := 1\<rparr> else s1)
      in case generateLevel cfg rnd shuffle s2 of
           None \<Rightarrow> None
         | Some s3 \<Rightarrow>
             let s4 = emit UpdateStats (emit RenderGrid s3);
                 s5 = (if timerInterval s4 then emit ClearTimer s4 else s4);
                 s6 = emit StartTimer (s5\<lparr>timerInterval := True\<rparr>)
             in Some (emit (HideScreen ScreenSuccess) (emit (HideScreen ScreenStart) s6)))"

text \<open>
  \<^verbatim>\<open>endGame(success)\<close>. The final time shown is copied from the timer's label and is
  left out.
\<close>

definition endGame :: "bool \<Rightarrow> int \<Rightarrow> STATE \<Rightarrow> STATE" where
  "endGame success now s =
     (let s1 = emit ClearTimer (s\<lparr>isPlaying := False\<rparr>) in
      if success then
        let s2 = emit (FinalAttempts (attempts s1)) s1;
            timeSec = (now - startTime s2) div 1000;
            score = max 0 (1000 - (timeSec * 5) - (attempts s2 * 50));
            s3 = emit (FinalScore score) s2;
            s4 = emit (SaveScore score (difficulty s3) (mode s3)) s3
        in emit (ShowScreen ScreenSuccess) s4
      else emit (ShowScreen ScreenStart) (emit Alert s1))"

subsection \<open>Moving\<close>

definition checkEntityCollision :: "int \<Rightarrow> STATE \<Rightarrow> STATE" where
  "checkEntityCollision now s =
     (let cx = pos_x (avatarPos s); cy = pos_y (avatarPos s);
          s1 = (if \<not> hasKey s \<and> cx = pos_x (keyPos s) \<and> cy = pos_y (keyPos s)
                then emit UpdateStats (s\<lparr>hasKey := True\<rparr>) else s)
      in if cx = pos_x (doorPos s1) \<and> cy = pos_y (doorPos s1) then
           if hasKey s1 then endGame True now s1 else s1
         else s1)"

text \<open>The string \<^verbatim>\<open>wallKey\<close> of \<^verbatim>\<open>handleCollision\<close>.\<close>

fun wallKey :: "int \<Rightarrow> int \<Rightarrow> dir \<Rightarrow> wall" where
  "wallKey fromX fromY DRight = Wall fromX fromY DRight"
| "wallKey fromX fromY DBottom = Wall fromX fromY DBottom"
| "wallKey fromX fromY DLeft = Wall (fromX - 1) fromY DRight"
| "wallKey fromX fromY DTop = Wall fromX (fromY - 1) DBottom"

definition handleCollision :: "int \<Rightarrow> int \<Rightarrow> dir \<Rightarrow> int \<Rightarrow> STATE \<Rightarrow> STATE" where
  "handleCollision fromX fromY d now s =
     (let s1 = emit UpdateStats (s\<lparr>attempts := attempts s + 1\<rparr>);
          k = wallKey fromX fromY d;
          s2 = (if k \<notin> set (revealedWalls s1)
                then s1\<lparr>revealedWalls := revealedWalls s1 @ [k]\<rparr> else s1);
          s3 = emit FlashBackground (emit RenderGrid s2);
          s4 = s3\<lparr>avatarPos := Pos 0 (gridSize s3 - 1)\<rparr>
      in if mode s4 = CHALLENGE then endGame False now s4 else emit RenderGrid s4)"

text \<open>
  \<^verbatim>\<open>moveAvatar(dir)\<close>. It is called by \<^verbatim>\<open>handleInput\<close> for the keyboard, and directly
  by the click and touch listeners of the on-screen buttons.
\<close>

definition moveAvatar :: "dir \<Rightarrow> int \<Rightarrow> STATE \<Rightarrow> STATE" where
  "moveAvatar d now s =
     (let cx = pos_x (avatarPos s); cy = pos_y (avatarPos s);
          ny = (if d = DTop then cy - 1 else if d = DBottom then cy + 1 else cy);
          nx = (if d = DLeft then cx - 1 else if d = DRight then cx + 1 else cx)
      in if nx < 0 \<or> nx \<ge> gridSize s \<or> ny < 0 \<or> ny \<ge> gridSize s then s
         else if hasWall s cx cy d then handleCollision cx cy d now s
         else emit RenderGrid (checkEntityCollision now (s\<lparr>avatarPos := Pos nx ny\<rparr>)))"

text \<open>\<^verbatim>\<open>handleInput(e)\<close>, on the string \<^verbatim>\<open>e.key\<close>.\<close>

definition keyDir :: "string \<Rightarrow> dir option" where
  "keyDir k =
     (if k = ''ArrowUp'' \<or> k = ''w'' then Some DTop
      else if k = ''ArrowDown'' \<or> k = ''s'' then Some DBottom
      else if k = ''ArrowLeft'' \<or> k = ''a'' then Some DLeft
      else if k = ''ArrowRight'' \<or> k = ''d'' then Some DRight
      else None)"

definition handleInput :: "string \<Rightarrow> int \<Rightarrow> STATE \<Rightarrow> STATE" where
  "handleInput k now s =
     (if \<not> isPlaying s then s
      else case keyDir k of None \<Rightarrow> s | Some d \<Rightarrow> moveAvatar d now s)"

text \<open>A run: calls of \<^verbatim>\<open>moveAvatar\<close> one after the other, each with its clock reading.\<close>

fun moves :: "(dir \<times> int) list \<Rightarrow> STATE \<Rightarrow> STATE" where
  "moves [] s = s"
| "moves ((d, now) # ds) s = moves ds (moveAvatar d now s)"

subsection \<open>Notions used in the statements\<close>

text \<open>The cell next to a cell: the \<^verbatim>\<open>nx\<close>, \<^verbatim>\<open>ny\<close> that \<^verbatim>\<open>moveAvatar\<close> computes.\<close>

fun neighbour :: "dir \<Rightarrow> pos \<Rightarrow> pos" where
  "neighbour DTop p = Pos (pos_x p) (pos_y p - 1)"
| "neighbour DBottom p = Pos (pos_x p) (pos_y p + 1)"
| "neighbour DLeft p = Pos (pos_x p - 1) (pos_y p)"
| "neighbour DRight p = Pos (pos_x p + 1) (pos_y p)"

definition inGrid :: "int \<Rightarrow> pos \<Rightarrow> bool" where
  "inGrid n p \<longleftrightarrow> 0 \<le> pos_x p \<and> pos_x p < n \<and> 0 \<le> pos_y p \<and> pos_y p < n"

text \<open>The object \<^verbatim>\<open>STATE\<close> as the script creates it.\<close>

definition initialSTATE :: STATE where
  "initialSTATE =
     \<lparr>difficulty = EASY, mode = PRACTICE, gridSize = 3, avatarPos = Pos 0 0, keyPos = Pos 0 0,
      doorPos = Pos 0 0, hasKey = False, attempts = 0, startTime = 0, walls = [],
      revealedWalls = [], currentLevel = 1, isPlaying = False, timerInterval = False,
      effects = []\<rparr>"

text \<open>
  A level in play on the 3x3 grid: the avatar on the start cell, a wall to its right and
  one below the cell in the middle of the top row.
\<close>

definition demoLevel :: STATE where
  "demoLevel =
     \<lparr>difficulty = EASY, mode = PRACTICE, gridSize = 3, avatarPos = Pos 0 2, keyPos = Pos 1 1,
      doorPos = Pos 2 0, hasKey = False, attempts = 0, startTime = 0,
      walls = [Wall 0 2 DRight, Wall 1 0 DBottom],
      revealedWalls = [], currentLevel = 1, isPlaying = True, timerInterval = True,
      effects = []\<rparr>"

text \<open>The cells of the grid.\<close>

definition gridCells :: "int \<Rightarrow> pos set" where
  "gridCells n = {p. inGrid n p}"

text \<open>
  What is left of a search: the cells of the grid not yet visited, and the queue. Each
  turn of the loop takes one from it.
\<close>

definition todo :: "STATE \<Rightarrow> pos list \<times> pos list \<Rightarrow> nat" where
  "todo s qv = card (gridCells (gridSize s) - set (snd qv)) + length (fst qv)"

text \<open>
  One step of the search: b is next to a, inside the grid, and \<^verbatim>\<open>hasWall\<close> finds no
  wall on the way.
\<close>

definition openEdge :: "STATE \<Rightarrow> pos \<Rightarrow> pos \<Rightarrow> bool" where
  "openEdge s a b \<longleftrightarrow>
     (\<exists>d. b = neighbour d a \<and> inGrid (gridSize s) b \<and> \<not> hasWall s (pos_x a) (pos_y a) d)"

text \<open>The cells that the inner loop reaches from a cell, over a list of directions.\<close>

definition opened :: "STATE \<Rightarrow> pos \<Rightarrow> (int \<times> int \<times> dir) list \<Rightarrow> pos set" where
  "opened s cur ds =
     {Pos (pos_x cur + dx) (pos_y cur + dy) | dx dy d.
        (dx, dy, d) \<in> set ds \<and> inGrid (gridSize s) (Pos (pos_x cur + dx) (pos_y cur + dy)) \<and>
        \<not> hasWall s (pos_x cur) (pos_y cur) d}"

text \<open>
  The invariant of the search: the queue is visited, and a visited cell that has left the
  queue is not the goal and has all the cells one step away visited.
\<close>

definition searched :: "STATE \<Rightarrow> pos \<Rightarrow> pos list \<Rightarrow> pos list \<Rightarrow> bool" where
  "searched s goal queue visited \<longleftrightarrow>
     set queue \<subseteq> set visited \<and>
     (\<forall>a. a \<in> set visited \<longrightarrow> a \<notin> set queue \<longrightarrow>
        a \<noteq> goal \<and> (\<forall>b. openEdge s a b \<longrightarrow> b \<in> set visited))"

text \<open>
  A wall lies on an inner edge of the grid: a right wall needs a column to its right, a
  bottom wall a row below.
\<close>

definition wallInBounds :: "int \<Rightarrow> wall \<Rightarrow> bool" where
  "wallInBounds n w \<longleftrightarrow>
     (wall_dir w = DRight \<and> 0 \<le> wall_x w \<and> wall_x w < n - 1 \<and> 0 \<le> wall_y w \<and> wall_y w < n) \<or>
     (wall_dir w = DBottom \<and> 0 \<le> wall_x w \<and> wall_x w < n \<and> 0 \<le> wall_y w \<and> wall_y w < n - 1)"

text \<open>The key cell drawn by the calls j and j + 1 of \<^verbatim>\<open>Math.random()\<close>.\<close>

definition keyDraw :: "(nat \<Rightarrow> real) \<Rightarrow> int \<Rightarrow> nat \<Rightarrow> pos" where
  "keyDraw rnd n j = Pos \<lfloor>rnd j * of_int n\<rfloor> \<lfloor>rnd (j + 1) * of_int n\<rfloor>"

text \<open>
  The level that \<^verbatim>\<open>generateLevel\<close> builds from the initial state when every random
  number is 1/2 and the sort reverses the candidates.
\<close>

definition generatedDemo :: STATE where
  "generatedDemo =
     \<lparr>difficulty = EASY, mode = PRACTICE, gridSize = 3, avatarPos = Pos 0 2, keyPos = Pos 1 1,
      doorPos = Pos 2 0, hasKey = False, attempts = 0, startTime = 0,
      walls = [Wall 1 2 DRight, Wall 1 1 DRight],
      revealedWalls = [], currentLevel = 1, isPlaying = False, timerInterval = False,
      effects = []\<rparr>"

text \<open>
  The 3x3 level with a given key cell and wall list; the other fields are those of the
  initial state and play no part in the search.
\<close>

definition grid3 :: "pos \<Rightarrow> wall list \<Rightarrow> STATE" where
  "grid3 k ws = initialSTATE\<lparr>avatarPos := Pos 0 2, doorPos := Pos 2 0, keyPos := k, walls := ws\<rparr>"

text \<open>The cells of the 3x3 grid other than the start (0, 2) and the door (2, 0).\<close>

definition keys3 :: "pos list" where
  "keys3 = [Pos 0 0, Pos 1 0, Pos 0 1, Pos 1 1, Pos 2 1, Pos 1 2, Pos 2 2]"

text \<open>
  A wall that can always follow a first wall c on the 3x3 grid: one of the two walls
  around the middle cell, neither of which closes off a corner together with c.
\<close>

definition secondWall :: "wall \<Rightarrow> wall" where
  "secondWall c = (if c = Wall 1 1 DRight then Wall 1 1 DBottom else Wall 1 1 DRight)"

section \<open>Properties of moving\<close>

lemma moveAvatar_cases:
  "moveAvatar d now s =
     (if \<not> inGrid (gridSize s) (neighbour d (avatarPos s)) then s
      else if hasWall s (pos_x (avatarPos s)) (pos_y (avatarPos s)) d
      then handleCollision (pos_x (avatarPos s)) (pos_y (avatarPos s)) d now s
      else emit RenderGrid (checkEntityCollision now (s\<lparr>avatarPos := neighbour d (avatarPos s)\<rparr>)))"
  by (cases d) (auto simp: moveAvatar_def inGrid_def Let_def)

lemma wall_ex_iff:
  "list_ex (\<lambda>w. wall_x w = a \<and> wall_y w = b \<and> wall_dir w = c) ws \<longleftrightarrow> Wall a b c \<in> set ws"
proof (induction ws)
  case Nil
  show ?case by simp
next
  case (Cons w ws)
  have "(wall_x w = a \<and> wall_y w = b \<and> wall_dir w = c) \<longleftrightarrow> Wall a b c = w"
    by (cases w) auto
  with Cons show ?case by simp
qed

lemma hasWall_wallKey: "hasWall s cx cy d \<longleftrightarrow> wallKey cx cy d \<in> set (walls s)"
  by (cases d) (simp_all add: wall_ex_iff)

lemma endGame_fields:
  "avatarPos (endGame b now s) = avatarPos s"
  "hasKey (endGame b now s) = hasKey s"
  "attempts (endGame b now s) = attempts s"
  "revealedWalls (endGame b now s) = revealedWalls s"
  "walls (endGame b now s) = walls s"
  "keyPos (endGame b now s) = keyPos s"
  "doorPos (endGame b now s) = doorPos s"
  "gridSize (endGame b now s) = gridSize s"
  "mode (endGame b now s) = mode s"
  "isPlaying (endGame b now s) = False"
  by (simp_all add: endGame_def emit_def Let_def)

lemma handleCollision_fields:
  "avatarPos (handleCollision cx cy d now s) = Pos 0 (gridSize s - 1)"
  "hasKey (handleCollision cx cy d now s) = hasKey s"
  "attempts (handleCollision cx cy d now s) = attempts s + 1"
  "revealedWalls (handleCollision cx cy d now s) =
     (if wallKey cx cy d \<in> set (revealedWalls s) then revealedWalls s
      else revealedWalls s @ [wallKey cx cy d])"
  "walls (handleCollision cx cy d now s) = walls s"
  "keyPos (handleCollision cx cy d now s) = keyPos s"
  "doorPos (handleCollision cx cy d now s) = doorPos s"
  "gridSize (handleCollision cx cy d now s) = gridSize s"
  "mode (handleCollision cx cy d now s) = mode s"
  by (simp_all add: handleCollision_def emit_def Let_def endGame_fields)

lemma checkEntityCollision_fields:
  "avatarPos (checkEntityCollision now s) = avatarPos s"
  "attempts (checkEntityCollision now s) = attempts s"
  "revealedWalls (checkEntityCollision now s) = revealedWalls s"
  "walls (checkEntityCollision now s) = walls s"
  "keyPos (checkEntityCollision now s) = keyPos s"
  "doorPos (checkEntityCollision now s) = doorPos s"
  "gridSize (checkEntityCollision now s) = gridSize s"
  "mode (checkEntityCollision now s) = mode s"
  "hasKey s \<Longrightarrow> hasKey (checkEntityCollision now s)"
  by (simp_all add: checkEntityCollision_def emit_def Let_def endGame_fields)

lemma moveAvatar_keeps:
  "walls (moveAvatar d now s) = walls s"
  "keyPos (moveAvatar d now s) = keyPos s"
  "doorPos (moveAvatar d now s) = doorPos s"
  "gridSize (moveAvatar d now s) = gridSize s"
  "mode (moveAvatar d now s) = mode s"
  by (simp_all add: moveAvatar_cases handleCollision_fields checkEntityCollision_fields emit_def)

lemma moveAvatar_hasKey: "hasKey s \<Longrightarrow> hasKey (moveAvatar d now s)"
  by (simp add: moveAvatar_cases handleCollision_fields checkEntityCollision_fields emit_def)

lemma moves_hasKey: "hasKey s \<Longrightarrow> hasKey (moves ds s)"
  by (induction ds s rule: moves.induct) (simp_all add: moveAvatar_hasKey)

lemma moves_walls: "walls (moves ds s) = walls s"
  by (induction ds s rule: moves.induct) (simp_all add: moveAvatar_keeps)

lemma moveAvatar_revealed_mono:
  "set (revealedWalls s) \<subseteq> set (revealedWalls (moveAvatar d now s))"
  by (auto simp: moveAvatar_cases handleCollision_fields checkEntityCollision_fields emit_def)

lemma moveAvatar_revealed_inv:
  "set (revealedWalls s) \<subseteq> set (walls s) \<Longrightarrow>
   set (revealedWalls (moveAvatar d now s)) \<subseteq> set (walls (moveAvatar d now s))"
  by (auto simp: moveAvatar_cases handleCollision_fields checkEntityCollision_fields emit_def
      hasWall_wallKey)

lemma moves_revealed_inv:
  "set (revealedWalls s) \<subseteq> set (walls s) \<Longrightarrow>
   set (revealedWalls (moves ds s)) \<subseteq> set (walls (moves ds s))"
  by (induction ds s rule: moves.induct) (simp_all add: moveAvatar_revealed_inv)

section \<open>Properties of level generation\<close>

lemma pos_eq_iff: "pos_x a = pos_x b \<and> pos_y a = pos_y b \<longleftrightarrow> a = b"
  by (cases a; cases b) auto

lemma keyLoop_result:
  assumes "keyLoop rnd i s = Some s'"
  shows "\<exists>j. s' = s\<lparr>keyPos := Pos \<lfloor>rnd j * of_int (gridSize s)\<rfloor> \<lfloor>rnd (j + 1) * of_int (gridSize s)\<rfloor>\<rparr>
           \<and> keyPos s' \<noteq> avatarPos s \<and> keyPos s' \<noteq> doorPos s"
proof (rule keyLoop.raw_induct [where P = "\<lambda>rnd i s s'. \<exists>j. s' = s\<lparr>keyPos := Pos \<lfloor>rnd j * of_int (gridSize s)\<rfloor> \<lfloor>rnd (j + 1) * of_int (gridSize s)\<rfloor>\<rparr>
           \<and> keyPos s' \<noteq> avatarPos s \<and> keyPos s' \<noteq> doorPos s", OF _ assms], goal_cases)
  case (1 keyLoop' rnd i s s')
  let ?t = "s\<lparr>keyPos := Pos \<lfloor>rnd i * of_int (gridSize s)\<rfloor> \<lfloor>rnd (i + 1) * of_int (gridSize s)\<rfloor>\<rparr>"
  have eq: "(if keyPos ?t = avatarPos ?t \<or> keyPos ?t = doorPos ?t
             then keyLoop' rnd (i + 2) ?t else Some ?t) = Some s'"
    using 1(2) unfolding Let_def pos_eq_iff .
  show ?case
  proof (cases "keyPos ?t = avatarPos ?t \<or> keyPos ?t = doorPos ?t")
    case True
    with eq have "keyLoop' rnd (i + 2) ?t = Some s'"
      by (simp only: if_True)
    from 1(1)[OF this] show ?thesis by auto
  next
    case False
    with eq have "s' = ?t"
      by (simp only: if_False option.inject)
    with False show ?thesis by auto
  qed
qed

lemma addWalls_frame:
  "addWalls t cs a s = Some s' \<Longrightarrow> \<exists>ws. s' = s\<lparr>walls := ws\<rparr>"
proof (induction cs arbitrary: a s)
  case Nil
  then have "s' = s\<lparr>walls := walls s\<rparr>" by simp
  then show ?case ..
next
  case (Cons w cs)
  show ?case
  proof (cases "a \<ge> t")
    case True
    with Cons.prems have "s' = s\<lparr>walls := walls s\<rparr>" by simp
    then show ?thesis ..
  next
    case False
    show ?thesis
    proof (cases "isSolvable (s\<lparr>walls := walls s @ [w]\<rparr>)")
      case None
      with False Cons.prems show ?thesis by (simp add: Let_def)
    next
      case (Some b)
      show ?thesis
      proof (cases b)
        case True
        with Some False Cons.prems
        have "addWalls t cs (a + 1) (s\<lparr>walls := walls s @ [w]\<rparr>) = Some s'"
          by (simp add: Let_def)
        from Cons.IH [OF this] obtain ws where "s' = s\<lparr>walls := walls s @ [w]\<rparr>\<lparr>walls := ws\<rparr>" ..
        then have "s' = s\<lparr>walls := ws\<rparr>" by simp
        then show ?thesis ..
      next
        case not_solvable: False
        with Some False Cons.prems have "addWalls t cs a s = Some s'"
          by (simp add: Let_def)
        from Cons.IH [OF this] show ?thesis .
      qed
    qed
  qed
qed

lemma generateLevel_frame:
  assumes "generateLevel cfg rnd shuffle s = Some s'"
  shows "\<exists>p ws. s' = s\<lparr>avatarPos := Pos 0 (gridSize s - 1), doorPos := Pos (gridSize s - 1) 0,
                keyPos := p, walls := ws\<rparr>"
proof -
  let ?s2 = "s\<lparr>avatarPos := Pos 0 (gridSize s - 1), doorPos := Pos (gridSize s - 1) 0\<rparr>"
  from assms obtain s3 where k: "keyLoop rnd 0 ?s2 = Some s3"
    and a: "addWalls (cfg_walls (cfg (difficulty s3))) (shuffle (possibleWalls (gridSize s))) 0
              (s3\<lparr>walls := []\<rparr>) = Some s'"
    by (simp add: generateLevel_def Let_def split: option.splits)
  from keyLoop_result [OF k] obtain p where s3: "s3 = ?s2\<lparr>keyPos := p\<rparr>" by blast
  from addWalls_frame [OF a] obtain ws where "s' = s3\<lparr>walls := []\<rparr>\<lparr>walls := ws\<rparr>" ..
  with s3 have "s' = s\<lparr>avatarPos := Pos 0 (gridSize s - 1), doorPos := Pos (gridSize s - 1) 0,
                keyPos := p, walls := ws\<rparr>" by simp
  then show ?thesis by blast
qed

lemma startGame_fields:
  assumes "startGame cfg rnd shuffle r now s = Some s'"
  shows "hasKey s' = False" "revealedWalls s' = []" "attempts s' = 0" "isPlaying s' = True"
proof -
  define s2 where "s2 = (let s1 = s\<lparr>isPlaying := True, attempts := 0, hasKey := False, revealedWalls := [],
                  startTime := now\<rparr> in if r then s1\<lparr>currentLevel := 1\<rparr> else s1)"
  have s2: "hasKey s2 = False" "revealedWalls s2 = []" "attempts s2 = 0" "isPlaying s2 = True"
    by (simp_all add: s2_def Let_def)
  from assms obtain s3 where g: "generateLevel cfg rnd shuffle s2 = Some s3"
    by (simp add: startGame_def s2_def Let_def split: option.splits)
  with assms have s': "s' = (let s4 = emit UpdateStats (emit RenderGrid s3);
                 s5 = (if timerInterval s4 then emit ClearTimer s4 else s4);
                 s6 = emit StartTimer (s5\<lparr>timerInterval := True\<rparr>)
             in emit (HideScreen ScreenSuccess) (emit (HideScreen ScreenStart) s6))"
    by (simp add: startGame_def s2_def Let_def)
  from generateLevel_frame [OF g] obtain p ws where
    "s3 = s2\<lparr>avatarPos := Pos 0 (gridSize s2 - 1), doorPos := Pos (gridSize s2 - 1) 0,
                keyPos := p, walls := ws\<rparr>" by blast
  with s2 have "hasKey s3 = False" "revealedWalls s3 = []" "attempts s3 = 0" "isPlaying s3 = True"
    by simp_all
  with s' show "hasKey s' = False" "revealedWalls s' = []" "attempts s' = 0" "isPlaying s' = True"
    by (simp_all add: emit_def Let_def)
qed

section \<open>The search\<close>

lemma finite_gridCells: "finite (gridCells n)"
proof -
  have "gridCells n \<subseteq> (\<lambda>(a, b). Pos a b) ` ({0..<n} \<times> {0..<n})"
  proof
    fix p assume "p \<in> gridCells n"
    then have "(pos_x p, pos_y p) \<in> {0..<n} \<times> {0..<n}"
      by (simp add: gridCells_def inGrid_def)
    then have "(\<lambda>(a, b). Pos a b) (pos_x p, pos_y p) \<in> (\<lambda>(a, b). Pos a b) ` ({0..<n} \<times> {0..<n})"
      by (rule imageI)
    then show "p \<in> (\<lambda>(a, b). Pos a b) ` ({0..<n} \<times> {0..<n})" by simp
  qed
  then show ?thesis by (rule finite_subset) simp
qed

lemma visit_todo: "todo s (visit s cur d qv) = todo s qv"
proof (cases d)
  case (fields dx dy m)
  obtain q v where qv: "qv = (q, v)" by (cases qv)
  let ?p = "Pos (pos_x cur + dx) (pos_y cur + dy)"
  show ?thesis
  proof (cases "inGrid (gridSize s) ?p \<and> \<not> hasWall s (pos_x cur) (pos_y cur) m \<and> ?p \<notin> set v")
    case True
    then have v: "visit s cur d (q, v) = (q @ [?p], v @ [?p])"
      by (simp add: fields inGrid_def Let_def)
    from True have "?p \<in> gridCells (gridSize s) - set v" by (simp add: gridCells_def)
    moreover have "gridCells (gridSize s) - set (v @ [?p]) = (gridCells (gridSize s) - set v) - {?p}"
      by auto
    ultimately have "card (gridCells (gridSize s) - set (v @ [?p])) + 1 = card (gridCells (gridSize s) - set v)"
      using card_Suc_Diff1 [of "gridCells (gridSize s) - set v" ?p] finite_gridCells [of "gridSize s"]
      by simp
    then show ?thesis by (simp add: v qv todo_def)
  next
    case False
    then have "visit s cur d (q, v) = (q, v)"
      by (auto simp: fields inGrid_def Let_def)
    then show ?thesis by (simp add: qv)
  qed
qed

lemma fold_visit_todo: "todo s (fold (visit s cur) ds qv) = todo s qv"
  by (induction ds arbitrary: qv) (simp_all add: visit_todo)

lemma hasPath_loop_induct [case_names empty found expand]:
  assumes empty: "\<And>visited. P [] visited"
    and found: "\<And>cur rest visited. cur = goal \<Longrightarrow> P (cur # rest) visited"
    and expand: "\<And>cur rest visited queue' visited'.
      cur \<noteq> goal \<Longrightarrow> fold (visit s cur) dirs (rest, visited) = (queue', visited') \<Longrightarrow>
      P queue' visited' \<Longrightarrow> P (cur # rest) visited"
  shows "P queue visited"
proof (induction "todo s (queue, visited)" arbitrary: queue visited rule: less_induct)
  case less
  show ?case
  proof (cases queue)
    case Nil
    then show ?thesis by (simp add: empty)
  next
    case (Cons cur rest)
    show ?thesis
    proof (cases "cur = goal")
      case True
      then show ?thesis unfolding Cons by (rule found)
    next
      case False
      obtain queue' visited' where f: "fold (visit s cur) dirs (rest, visited) = (queue', visited')"
        by (cases "fold (visit s cur) dirs (rest, visited)")
      have "todo s (queue', visited') = todo s (rest, visited)"
        using fold_visit_todo [of s cur dirs "(rest, visited)"] by (simp add: f)
      also have "\<dots> < todo s (queue, visited)"
        by (simp add: todo_def Cons)
      finally have "P queue' visited'" by (rule less)
      with False f show ?thesis unfolding Cons by (rule expand)
    qed
  qed
qed

lemma hasPath_loop_empty: "hasPath_loop s goal [] visited = Some False"
  by (subst hasPath_loop.simps) simp

lemma hasPath_loop_found: "hasPath_loop s goal (goal # rest) visited = Some True"
  by (subst hasPath_loop.simps) simp

lemma hasPath_loop_expand:
  "cur \<noteq> goal \<Longrightarrow> fold (visit s cur) dirs (rest, visited) = (queue', visited') \<Longrightarrow>
   hasPath_loop s goal (cur # rest) visited = hasPath_loop s goal queue' visited'"
  by (subst hasPath_loop.simps) (simp add: pos_eq_iff)

lemma hasPath_loop_returns: "\<exists>b. hasPath_loop s goal queue visited = Some b"
  by (induction queue visited rule: hasPath_loop_induct [where s = s and goal = goal])
    (auto simp: hasPath_loop_empty hasPath_loop_found hasPath_loop_expand)

text \<open>
  Claim C9. \<^verbatim>\<open>hasPath\<close> returns a boolean for every state (every wall list and grid
  size) and every pair of cells, and it returns true when start and goal are the same
  cell.
\<close>

theorem hasPath_terminates:
  "(\<exists>b. hasPath s start goal = Some b) \<and> hasPath s start start = Some True"
  by (simp add: hasPath_def hasPath_loop_returns hasPath_loop_found)


lemma opened_Nil: "opened s cur [] = {}"
  by (simp add: opened_def)

lemma opened_Cons: "opened s cur (d # ds) = opened s cur [d] \<union> opened s cur ds"
  by (auto simp: opened_def)

lemma visit_sets:
  assumes "visit s cur d (q, v) = (q', v')"
  shows "set v' = set v \<union> opened s cur [d] \<and> set q' = set q \<union> (opened s cur [d] - set v)"
proof (cases d)
  case (fields dx dy m)
  let ?p = "Pos (pos_x cur + dx) (pos_y cur + dy)"
  have o: "opened s cur [d] =
    (if inGrid (gridSize s) ?p \<and> \<not> hasWall s (pos_x cur) (pos_y cur) m then {?p} else {})"
    by (auto simp: opened_def fields)
  show ?thesis
  proof (cases "inGrid (gridSize s) ?p \<and> \<not> hasWall s (pos_x cur) (pos_y cur) m \<and> ?p \<notin> set v")
    case True
    then have "visit s cur d (q, v) = (q @ [?p], v @ [?p])"
      by (simp add: fields inGrid_def Let_def)
    with assms have "q' = q @ [?p]" "v' = v @ [?p]" by simp_all
    with True o show ?thesis by auto
  next
    case False
    then have "visit s cur d (q, v) = (q, v)"
      by (auto simp: fields inGrid_def Let_def)
    with assms have "q' = q" "v' = v" by simp_all
    with False o show ?thesis by auto
  qed
qed

lemma fold_visit_sets:
  "fold (visit s cur) ds (q, v) = (q', v') \<Longrightarrow>
   set v' = set v \<union> opened s cur ds \<and> set q' = set q \<union> (opened s cur ds - set v)"
proof (induction ds arbitrary: q v)
  case Nil
  then show ?case by (simp add: opened_Nil)
next
  case (Cons d ds)
  obtain q1 v1 where 1: "visit s cur d (q, v) = (q1, v1)"
    by (cases "visit s cur d (q, v)")
  with Cons.prems have "fold (visit s cur) ds (q1, v1) = (q', v')" by simp
  from Cons.IH [OF this] visit_sets [OF 1]
  have "set v' = set v \<union> (opened s cur [d] \<union> opened s cur ds) \<and>
        set q' = set q \<union> ((opened s cur [d] \<union> opened s cur ds) - set v)"
    by blast
  then show ?case
    using opened_Cons [of s cur d ds] by simp
qed

lemma opened_dirs: "opened s cur dirs = {b. openEdge s cur b}"
proof -
  have "b \<in> opened s cur dirs \<longleftrightarrow> openEdge s cur b" for b
  proof
    assume "b \<in> opened s cur dirs"
    then obtain dx dy d where m: "(dx, dy, d) \<in> set dirs"
      and b: "b = Pos (pos_x cur + dx) (pos_y cur + dy)"
      and g: "inGrid (gridSize s) (Pos (pos_x cur + dx) (pos_y cur + dy))"
      and w: "\<not> hasWall s (pos_x cur) (pos_y cur) d"
      unfolding opened_def by blast
    from m b have "b = neighbour d cur" by (auto simp: dirs_def)
    with g w b show "openEdge s cur b" unfolding openEdge_def by blast
  next
    assume "openEdge s cur b"
    then obtain d where d: "b = neighbour d cur" "inGrid (gridSize s) b"
      "\<not> hasWall s (pos_x cur) (pos_y cur) d"
      unfolding openEdge_def by blast
    then show "b \<in> opened s cur dirs"
      by (cases d) (auto simp: opened_def dirs_def)
  qed
  then show ?thesis by blast
qed

lemma closed_reach:
  assumes "(openEdge s)\<^sup>*\<^sup>* a b" and "a \<in> V" and "\<And>c e. c \<in> V \<Longrightarrow> openEdge s c e \<Longrightarrow> e \<in> V"
  shows "b \<in> V"
  using assms by (induction rule: rtranclp_induct) auto

lemma searched_expand:
  assumes ne: "cur \<noteq> goal"
    and f: "fold (visit s cur) dirs (rest, visited) = (queue', visited')"
    and inv: "searched s goal (cur # rest) visited"
  shows "searched s goal queue' visited'" and "set visited \<subseteq> set visited'"
proof -
  from inv have sub: "set (cur # rest) \<subseteq> set visited"
    unfolding searched_def by (rule conjunct1)
  from inv have closed: "\<forall>a. a \<in> set visited \<longrightarrow> a \<notin> set (cur # rest) \<longrightarrow>
        a \<noteq> goal \<and> (\<forall>b. openEdge s a b \<longrightarrow> b \<in> set visited)"
    unfolding searched_def by (rule conjunct2)
  from fold_visit_sets [OF f]
  have v': "set visited' = set visited \<union> {b. openEdge s cur b}"
    and q': "set queue' = set rest \<union> ({b. openEdge s cur b} - set visited)"
    by (simp_all add: opened_dirs)
  show "set visited \<subseteq> set visited'"
    using v' by blast
  have 1: "set queue' \<subseteq> set visited'"
    using sub v' q' by auto
  have 2: "a \<noteq> goal \<and> (\<forall>b. openEdge s a b \<longrightarrow> b \<in> set visited')"
    if a: "a \<in> set visited'" "a \<notin> set queue'" for a
  proof (cases "a = cur")
    case True
    with ne v' show ?thesis by blast
  next
    case False
    from a v' q' have "a \<in> set visited" "a \<notin> set rest" by blast+
    with False have "a \<in> set visited" "a \<notin> set (cur # rest)" by simp_all
    with closed have "a \<noteq> goal \<and> (\<forall>b. openEdge s a b \<longrightarrow> b \<in> set visited)" by blast
    with v' show ?thesis by blast
  qed
  from 1 2 show "searched s goal queue' visited'"
    unfolding searched_def by blast
qed

lemma searched_empty:
  assumes "searched s goal [] visited" and "a \<in> set visited" and "(openEdge s)\<^sup>*\<^sup>* a goal"
  shows False
proof -
  from assms(1) have "\<forall>a. a \<in> set visited \<longrightarrow>
        a \<noteq> goal \<and> (\<forall>b. openEdge s a b \<longrightarrow> b \<in> set visited)"
    unfolding searched_def list.set by blast
  then have c: "\<And>c e. c \<in> set visited \<Longrightarrow> openEdge s c e \<Longrightarrow> e \<in> set visited"
    and n: "\<And>c. c \<in> set visited \<Longrightarrow> c \<noteq> goal"
    by blast+
  from assms(3,2) c have "goal \<in> set visited" by (rule closed_reach)
  with n show False by blast
qed

lemma hasPath_loop_complete:
  "searched s goal queue visited \<Longrightarrow> (\<exists>a \<in> set visited. (openEdge s)\<^sup>*\<^sup>* a goal) \<Longrightarrow>
   hasPath_loop s goal queue visited = Some True"
proof (induction queue visited rule: hasPath_loop_induct [where s = s and goal = goal])
  case (empty visited)
  then show ?case using searched_empty by blast
next
  case (found cur rest visited)
  then show ?case by (simp add: hasPath_loop_found)
next
  case (expand cur rest visited queue' visited')
  have 1: "searched s goal queue' visited'"
    using expand.hyps expand.prems(1) by (rule searched_expand(1))
  from searched_expand(2) [OF expand.hyps expand.prems(1)] expand.prems(2)
  have 2: "\<exists>a \<in> set visited'. (openEdge s)\<^sup>*\<^sup>* a goal"
    by blast
  from expand.IH [OF 1 2] hasPath_loop_expand [OF expand.hyps] show ?case
    by simp
qed

lemma hasPath_complete:
  assumes "(openEdge s)\<^sup>*\<^sup>* start goal"
  shows "hasPath s start goal = Some True"
  unfolding hasPath_def
proof (rule hasPath_loop_complete)
  show "searched s goal [start] [start]" by (simp add: searched_def)
  from assms show "\<exists>a \<in> set [start]. (openEdge s)\<^sup>*\<^sup>* a goal" by simp
qed

text \<open>
  Conversely, the search only answers true when a path exists: every cell that enters the
  queue is reached from the start by steps across open edges.
\<close>

lemma hasPath_loop_sound:
  "hasPath_loop s goal queue visited = Some True \<Longrightarrow>
   (\<And>a. a \<in> set queue \<Longrightarrow> (openEdge s)\<^sup>*\<^sup>* start a) \<Longrightarrow>
   (openEdge s)\<^sup>*\<^sup>* start goal"
proof (induction queue visited rule: hasPath_loop_induct [where s = s and goal = goal])
  case (empty visited)
  from empty.prems(1) show ?case by (simp add: hasPath_loop_empty)
next
  case (found cur rest visited)
  have "cur \<in> set (cur # rest)" by simp
  then have "(openEdge s)\<^sup>*\<^sup>* start cur" by (rule found.prems(2))
  with found.hyps show ?case by simp
next
  case (expand cur rest visited queue' visited')
  from fold_visit_sets [OF expand.hyps(2)]
  have q': "set queue' = set rest \<union> ({b. openEdge s cur b} - set visited)"
    by (simp add: opened_dirs)
  have cur: "(openEdge s)\<^sup>*\<^sup>* start cur"
    by (rule expand.prems(2)) simp
  have 1: "hasPath_loop s goal queue' visited' = Some True"
    using expand.prems(1) hasPath_loop_expand [OF expand.hyps(1,2)] by simp
  have 2: "(openEdge s)\<^sup>*\<^sup>* start a" if "a \<in> set queue'" for a
  proof (cases "a \<in> set rest")
    case True
    then have "a \<in> set (cur # rest)" by simp
    then show ?thesis by (rule expand.prems(2))
  next
    case False
    with that q' have "openEdge s cur a" by blast
    with cur show ?thesis by (rule rtranclp.rtrancl_into_rtrancl)
  qed
  from 1 2 show ?case by (rule expand.IH)
qed

lemma hasPath_sound:
  assumes "hasPath s start goal = Some True"
  shows "(openEdge s)\<^sup>*\<^sup>* start goal"
proof (rule hasPath_loop_sound)
  from assms show "hasPath_loop s goal [start] [start] = Some True" by (simp add: hasPath_def)
  show "(openEdge s)\<^sup>*\<^sup>* start a" if "a \<in> set [start]" for a
    using that by simp
qed

lemma hasPath_iff: "hasPath s start goal = Some True \<longleftrightarrow> (openEdge s)\<^sup>*\<^sup>* start goal"
  using hasPath_sound hasPath_complete by blast


section \<open>The generated level\<close>

lemma concat_map_product:
  "concat (map (\<lambda>a. map (\<lambda>b. f a b) ys) xs) = map (\<lambda>(a, b). f a b) (List.product xs ys)"
  by (induction xs) simp_all

lemma set_possibleWalls:
  "set (possibleWalls n) =
     {Wall cx cy DBottom | cx cy. 0 \<le> cx \<and> cx \<le> n - 1 \<and> 0 \<le> cy \<and> cy \<le> n - 2} \<union>
     {Wall cx cy DRight | cx cy. 0 \<le> cx \<and> cx \<le> n - 2 \<and> 0 \<le> cy \<and> cy \<le> n - 1}"
  by (auto simp: possibleWalls_def)

lemma possibleWalls_inBounds: "w \<in> set (possibleWalls n) \<Longrightarrow> wallInBounds n w"
  by (auto simp: set_possibleWalls wallInBounds_def)

lemma distinct_possibleWalls: "distinct (possibleWalls n)"
proof -
  have 1: "distinct (map (\<lambda>(cy, cx). Wall cx cy DBottom) (List.product [0..n - 2] [0..n - 1]))"
    by (simp add: distinct_map distinct_product inj_on_def)
  have 2: "distinct (map (\<lambda>(cx, cy). Wall cx cy DRight) (List.product [0..n - 2] [0..n - 1]))"
    by (simp add: distinct_map distinct_product inj_on_def)
  have 3: "set (map (\<lambda>(cy, cx). Wall cx cy DBottom) (List.product [0..n - 2] [0..n - 1])) \<inter>
           set (map (\<lambda>(cx, cy). Wall cx cy DRight) (List.product [0..n - 2] [0..n - 1])) = {}"
    by auto
  show ?thesis
    unfolding possibleWalls_def concat_map_product distinct_append
    using 1 2 3 by blast
qed

lemma addWalls_walls:
  "addWalls t cs a s = Some s' \<Longrightarrow>
   \<exists>ws. walls s' = walls s @ ws \<and> set ws \<subseteq> set cs \<and> (distinct cs \<longrightarrow> distinct ws) \<and>
        int (length ws) \<le> max 0 (t - a)"
proof (induction cs arbitrary: a s)
  case Nil
  then show ?case by simp
next
  case (Cons w cs)
  show ?case
  proof (cases "a \<ge> t")
    case True
    with Cons.prems show ?thesis by simp
  next
    case False
    show ?thesis
    proof (cases "isSolvable (s\<lparr>walls := walls s @ [w]\<rparr>)")
      case None
      with False Cons.prems show ?thesis by (simp add: Let_def)
    next
      case (Some b)
      show ?thesis
      proof (cases b)
        case True
        with Some False Cons.prems
        have "addWalls t cs (a + 1) (s\<lparr>walls := walls s @ [w]\<rparr>) = Some s'"
          by (simp add: Let_def)
        from Cons.IH [OF this] obtain ws where ws: "walls s' = (walls s @ [w]) @ ws"
          "set ws \<subseteq> set cs" "distinct cs \<longrightarrow> distinct ws" "int (length ws) \<le> max 0 (t - (a + 1))"
          by auto
        have "walls s' = walls s @ (w # ws)" using ws(1) by simp
        moreover have "set (w # ws) \<subseteq> set (w # cs)" using ws(2) by auto
        moreover have "distinct (w # cs) \<longrightarrow> distinct (w # ws)" using ws(2,3) by auto
        moreover have "int (length (w # ws)) \<le> max 0 (t - a)" using ws(4) False by simp
        ultimately show ?thesis by blast
      next
        case not_solvable: False
        with Some False Cons.prems have "addWalls t cs a s = Some s'"
          by (simp add: Let_def)
        from Cons.IH [OF this] obtain ws where ws: "walls s' = walls s @ ws"
          "set ws \<subseteq> set cs" "distinct cs \<longrightarrow> distinct ws" "int (length ws) \<le> max 0 (t - a)"
          by auto
        have "set ws \<subseteq> set (w # cs)" using ws(2) by auto
        moreover have "distinct (w # cs) \<longrightarrow> distinct ws" using ws(3) by auto
        ultimately show ?thesis using ws(1,4) by blast
      qed
    qed
  qed
qed

lemma generateLevel_unfold:
  assumes "generateLevel cfg rnd shuffle s = Some s'"
  obtains j where
    "keyDraw rnd (gridSize s) j \<noteq> Pos 0 (gridSize s - 1)"
    "keyDraw rnd (gridSize s) j \<noteq> Pos (gridSize s - 1) 0"
    "addWalls (cfg_walls (cfg (difficulty s))) (shuffle (possibleWalls (gridSize s))) 0
       (s\<lparr>avatarPos := Pos 0 (gridSize s - 1), doorPos := Pos (gridSize s - 1) 0,
          keyPos := keyDraw rnd (gridSize s) j, walls := []\<rparr>) = Some s'"
proof -
  let ?s2 = "s\<lparr>avatarPos := Pos 0 (gridSize s - 1), doorPos := Pos (gridSize s - 1) 0\<rparr>"
  from assms obtain s3 where k: "keyLoop rnd 0 ?s2 = Some s3"
    and a: "addWalls (cfg_walls (cfg (difficulty s3))) (shuffle (possibleWalls (gridSize s))) 0
              (s3\<lparr>walls := []\<rparr>) = Some s'"
    by (simp add: generateLevel_def Let_def split: option.splits)
  from keyLoop_result [OF k] obtain j where
    s3: "s3 = ?s2\<lparr>keyPos := keyDraw rnd (gridSize s) j\<rparr>"
    and "keyPos s3 \<noteq> avatarPos ?s2" "keyPos s3 \<noteq> doorPos ?s2"
    by (auto simp: keyDraw_def)
  then have "keyDraw rnd (gridSize s) j \<noteq> Pos 0 (gridSize s - 1)"
    "keyDraw rnd (gridSize s) j \<noteq> Pos (gridSize s - 1) 0"
    by simp_all
  moreover from a s3 have "addWalls (cfg_walls (cfg (difficulty s))) (shuffle (possibleWalls (gridSize s))) 0
       (s\<lparr>avatarPos := Pos 0 (gridSize s - 1), doorPos := Pos (gridSize s - 1) 0,
          keyPos := keyDraw rnd (gridSize s) j, walls := []\<rparr>) = Some s'"
    by simp
  ultimately show thesis by (rule that)
qed

text \<open>
  Claim C7. When the sort leaves a permutation of the candidates, the walls of a generated
  level are pairwise different, and each lies on an inner edge: a right wall has x < N - 1
  and 0 <= y < N, a bottom wall has y < N - 1 and 0 <= x < N.
\<close>

theorem generated_walls_distinct_in_bounds:
  assumes "generateLevel cfg rnd shuffle s = Some s'"
    and "mset (shuffle (possibleWalls (gridSize s))) = mset (possibleWalls (gridSize s))"
  shows "distinct (walls s') \<and> (\<forall>w \<in> set (walls s'). wallInBounds (gridSize s') w)"
proof -
  from assms(1) obtain j where
    a: "addWalls (cfg_walls (cfg (difficulty s))) (shuffle (possibleWalls (gridSize s))) 0
       (s\<lparr>avatarPos := Pos 0 (gridSize s - 1), doorPos := Pos (gridSize s - 1) 0,
          keyPos := keyDraw rnd (gridSize s) j, walls := []\<rparr>) = Some s'"
    by (rule generateLevel_unfold)
  from addWalls_frame [OF a] have n: "gridSize s' = gridSize s" by auto
  from addWalls_walls [OF a] obtain ws where ws: "walls s' = ws"
    "set ws \<subseteq> set (shuffle (possibleWalls (gridSize s)))"
    "distinct (shuffle (possibleWalls (gridSize s))) \<longrightarrow> distinct ws"
    by auto
  from assms(2) have "distinct (shuffle (possibleWalls (gridSize s)))"
    using mset_eq_imp_distinct_iff distinct_possibleWalls by blast
  moreover from assms(2) have "set (shuffle (possibleWalls (gridSize s))) = set (possibleWalls (gridSize s))"
    by (rule mset_eq_setD)
  ultimately show ?thesis using ws n possibleWalls_inBounds by auto
qed


lemma openEdge_noWalls:
  "walls s = [] \<Longrightarrow> inGrid (gridSize s) (neighbour d a) \<Longrightarrow> openEdge s a (neighbour d a)"
  unfolding openEdge_def by (rule exI [where x = d]) (cases d; simp)

lemma reach_right:
  assumes "walls s = []" and "0 \<le> cx" and "0 \<le> cy" and "cy < gridSize s" and "cx \<le> cx'"
  shows "cx' < gridSize s \<longrightarrow> (openEdge s)\<^sup>*\<^sup>* (Pos cx cy) (Pos cx' cy)"
  using assms(5)
proof (induction cx' rule: int_ge_induct)
  case base
  show ?case by simp
next
  case (step i)
  show ?case
  proof
    assume i: "i + 1 < gridSize s"
    with step have r: "(openEdge s)\<^sup>*\<^sup>* (Pos cx cy) (Pos i cy)" by simp
    have "inGrid (gridSize s) (neighbour DRight (Pos i cy))"
      using assms(2,3,4) step(1) i by (simp add: inGrid_def)
    from openEdge_noWalls [OF assms(1) this] have "openEdge s (Pos i cy) (Pos (i + 1) cy)" by simp
    with r show "(openEdge s)\<^sup>*\<^sup>* (Pos cx cy) (Pos (i + 1) cy)" by (rule rtranclp.rtrancl_into_rtrancl)
  qed
qed

lemma reach_up:
  assumes "walls s = []" and "0 \<le> cx" and "cx < gridSize s" and "cy < gridSize s" and "cy' \<le> cy"
  shows "0 \<le> cy' \<longrightarrow> (openEdge s)\<^sup>*\<^sup>* (Pos cx cy) (Pos cx cy')"
  using assms(5)
proof (induction cy' rule: int_le_induct)
  case base
  show ?case by simp
next
  case (step i)
  show ?case
  proof
    assume i: "0 \<le> i - 1"
    with step have r: "(openEdge s)\<^sup>*\<^sup>* (Pos cx cy) (Pos cx i)" by simp
    have "inGrid (gridSize s) (neighbour DTop (Pos cx i))"
      using assms(2,3,4) step(1) i by (simp add: inGrid_def)
    from openEdge_noWalls [OF assms(1) this] have "openEdge s (Pos cx i) (Pos cx (i - 1))" by simp
    with r show "(openEdge s)\<^sup>*\<^sup>* (Pos cx cy) (Pos cx (i - 1))" by (rule rtranclp.rtrancl_into_rtrancl)
  qed
qed

lemma reach_up_right:
  assumes "walls s = []" and "inGrid (gridSize s) a" and "inGrid (gridSize s) b"
    and "pos_x a \<le> pos_x b" and "pos_y b \<le> pos_y a"
  shows "(openEdge s)\<^sup>*\<^sup>* a b"
proof -
  have "(openEdge s)\<^sup>*\<^sup>* (Pos (pos_x a) (pos_y a)) (Pos (pos_x b) (pos_y a))"
    using reach_right [OF assms(1), of "pos_x a" "pos_y a" "pos_x b"] assms(2-4)
    by (simp add: inGrid_def)
  moreover have "(openEdge s)\<^sup>*\<^sup>* (Pos (pos_x b) (pos_y a)) (Pos (pos_x b) (pos_y b))"
    using reach_up [OF assms(1), of "pos_x b" "pos_y a" "pos_y b"] assms(2,3,5)
    by (simp add: inGrid_def)
  ultimately have "(openEdge s)\<^sup>*\<^sup>* (Pos (pos_x a) (pos_y a)) (Pos (pos_x b) (pos_y b))"
    by (rule rtranclp_trans)
  then show ?thesis by simp
qed

lemma keyDraw_inGrid:
  assumes "\<forall>i. 0 \<le> rnd i \<and> rnd i < 1" and "0 < n"
  shows "inGrid n (keyDraw rnd n j)"
proof -
  have "0 \<le> \<lfloor>rnd i * of_int n\<rfloor> \<and> \<lfloor>rnd i * of_int n\<rfloor> < n" for i
  proof
    from assms have "0 \<le> rnd i * of_int n" by simp
    then show "0 \<le> \<lfloor>rnd i * of_int n\<rfloor>" by simp
    from assms have "rnd i * of_int n < 1 * of_int n"
      by (intro mult_strict_right_mono) simp_all
    then show "\<lfloor>rnd i * of_int n\<rfloor> < n" by (simp add: floor_less_iff)
  qed
  then show ?thesis by (simp add: keyDraw_def inGrid_def)
qed

lemma addWalls_solvable:
  "addWalls t cs a s = Some s' \<Longrightarrow> walls s = [] \<or> isSolvable s = Some True \<Longrightarrow>
   walls s' = [] \<or> isSolvable s' = Some True"
proof (induction cs arbitrary: a s)
  case Nil
  then show ?case by simp
next
  case (Cons w cs)
  show ?case
  proof (cases "a \<ge> t")
    case True
    with Cons.prems show ?thesis by simp
  next
    case False
    show ?thesis
    proof (cases "isSolvable (s\<lparr>walls := walls s @ [w]\<rparr>)")
      case None
      with False Cons.prems show ?thesis by (simp add: Let_def)
    next
      case (Some b)
      show ?thesis
      proof (cases b)
        case True
        with Some False Cons.prems(1)
        have "addWalls t cs (a + 1) (s\<lparr>walls := walls s @ [w]\<rparr>) = Some s'"
          by (simp add: Let_def)
        moreover from Some True have "isSolvable (s\<lparr>walls := walls s @ [w]\<rparr>) = Some True" by simp
        ultimately show ?thesis using Cons.IH by blast
      next
        case not_solvable: False
        with Some False Cons.prems(1) have "addWalls t cs a s = Some s'"
          by (simp add: Let_def)
        with Cons.prems(2) show ?thesis using Cons.IH by blast
      qed
    qed
  qed
qed

lemma isSolvable_True:
  "isSolvable s = Some True \<longleftrightarrow>
   hasPath s (avatarPos s) (keyPos s) = Some True \<and> hasPath s (keyPos s) (doorPos s) = Some True"
  by (auto simp: isSolvable_def split: option.splits)

text \<open>
  Claim C1. For a grid of size N >= 2 and random numbers in [0, 1), whatever the table of
  levels and the order of the candidates: in the state that \<^verbatim>\<open>generateLevel\<close> returns,
  the start is (0, N - 1), the door is (N - 1, 0), and \<^verbatim>\<open>hasPath\<close> on the generated walls
  answers true from start to key and from key to door. The answer is not only the code's
  own: a chain of steps between neighbouring cells of the grid, none of them across a
  wall of the generated list, leads from start to key, and one from key to door.
\<close>

theorem generated_maze_solvable:
  assumes "generateLevel cfg rnd shuffle s = Some s'"
    and "2 \<le> gridSize s"
    and "\<forall>i. 0 \<le> rnd i \<and> rnd i < 1"
  shows "gridSize s' = gridSize s \<and>
         avatarPos s' = Pos 0 (gridSize s - 1) \<and> doorPos s' = Pos (gridSize s - 1) 0 \<and>
         hasPath s' (Pos 0 (gridSize s - 1)) (keyPos s') = Some True \<and>
         hasPath s' (keyPos s') (Pos (gridSize s - 1) 0) = Some True \<and>
         (openEdge s')\<^sup>*\<^sup>* (Pos 0 (gridSize s - 1)) (keyPos s') \<and>
         (openEdge s')\<^sup>*\<^sup>* (keyPos s') (Pos (gridSize s - 1) 0)"
proof -
  let ?n = "gridSize s"
  from assms(1) obtain j where
    a: "addWalls (cfg_walls (cfg (difficulty s))) (shuffle (possibleWalls ?n)) 0
       (s\<lparr>avatarPos := Pos 0 (?n - 1), doorPos := Pos (?n - 1) 0,
          keyPos := keyDraw rnd ?n j, walls := []\<rparr>) = Some s'"
    by (rule generateLevel_unfold)
  from addWalls_frame [OF a] obtain ws where
    s': "s' = s\<lparr>avatarPos := Pos 0 (?n - 1), doorPos := Pos (?n - 1) 0,
          keyPos := keyDraw rnd ?n j, walls := ws\<rparr>" by auto
  then have f: "gridSize s' = ?n" "avatarPos s' = Pos 0 (?n - 1)" "doorPos s' = Pos (?n - 1) 0"
    "keyPos s' = keyDraw rnd ?n j" by simp_all
  from assms(2,3) have k: "inGrid ?n (keyDraw rnd ?n j)" by (intro keyDraw_inGrid) simp_all
  from addWalls_solvable [OF a] have "walls s' = [] \<or> isSolvable s' = Some True" by simp
  then have "hasPath s' (Pos 0 (?n - 1)) (keyPos s') = Some True \<and>
         hasPath s' (keyPos s') (Pos (?n - 1) 0) = Some True"
  proof
    assume e: "walls s' = []"
    have "(openEdge s')\<^sup>*\<^sup>* (Pos 0 (?n - 1)) (keyPos s')"
      using k assms(2) by (intro reach_up_right [OF e]) (simp_all add: f inGrid_def)
    moreover have "(openEdge s')\<^sup>*\<^sup>* (keyPos s') (Pos (?n - 1) 0)"
      using k assms(2) by (intro reach_up_right [OF e]) (simp_all add: f inGrid_def)
    ultimately show ?thesis by (simp add: hasPath_complete)
  next
    assume "isSolvable s' = Some True"
    then show ?thesis by (simp add: isSolvable_True f)
  qed
  then have "hasPath s' (Pos 0 (?n - 1)) (keyPos s') = Some True"
    and "hasPath s' (keyPos s') (Pos (?n - 1) 0) = Some True"
    and "(openEdge s')\<^sup>*\<^sup>* (Pos 0 (?n - 1)) (keyPos s')"
    and "(openEdge s')\<^sup>*\<^sup>* (keyPos s') (Pos (?n - 1) 0)"
    by (simp_all add: hasPath_sound)
  with f(1-3) show ?thesis by blast
qed


lemma generateLevel_demo:
  "generateLevel CONFIG (\<lambda>i. 1 / 2) rev initialSTATE = Some generatedDemo"
  by code_simp

theorem generated_maze_solvable_witness:
  "generateLevel CONFIG (\<lambda>i. 1 / 2) rev initialSTATE = Some generatedDemo \<and>
   2 \<le> gridSize initialSTATE \<and>
   (\<forall>i::nat. (0::real) \<le> 1 / 2 \<and> (1 / 2 :: real) < 1) \<and>
   hasPath generatedDemo (Pos 0 2) (Pos 1 1) = Some True \<and>
   hasPath generatedDemo (Pos 1 1) (Pos 2 0) = Some True \<and>
   (openEdge generatedDemo)\<^sup>*\<^sup>* (Pos 0 2) (Pos 1 1) \<and>
   (openEdge generatedDemo)\<^sup>*\<^sup>* (Pos 1 1) (Pos 2 0)"
proof -
  have h2: "2 \<le> gridSize initialSTATE" by (simp add: initialSTATE_def)
  have h3: "\<forall>i::nat. (0::real) \<le> (\<lambda>i. 1 / 2) i \<and> (\<lambda>i. 1 / 2) i < (1::real)" by simp
  have k: "keyPos generatedDemo = Pos 1 1" by (simp add: generatedDemo_def)
  have n: "gridSize initialSTATE - 1 = 2" by (simp add: initialSTATE_def)
  from generated_maze_solvable [OF generateLevel_demo h2 h3] generateLevel_demo h2
  show ?thesis unfolding k n by simp
qed

theorem generated_walls_distinct_in_bounds_witness:
  "generateLevel CONFIG (\<lambda>i. 1 / 2) rev initialSTATE = Some generatedDemo \<and>
   mset (rev (possibleWalls (gridSize initialSTATE))) = mset (possibleWalls (gridSize initialSTATE)) \<and>
   walls generatedDemo = [Wall 1 2 DRight, Wall 1 1 DRight] \<and>
   distinct (walls generatedDemo) \<and>
   wallInBounds (gridSize generatedDemo) (Wall 1 2 DRight) \<and>
   wallInBounds (gridSize generatedDemo) (Wall 1 1 DRight)"
proof -
  have h2: "mset (rev (possibleWalls (gridSize initialSTATE))) =
            mset (possibleWalls (gridSize initialSTATE))" by simp
  have w: "walls generatedDemo = [Wall 1 2 DRight, Wall 1 1 DRight]"
    by (simp add: generatedDemo_def)
  from generated_walls_distinct_in_bounds [OF generateLevel_demo h2] generateLevel_demo h2 w
  show ?thesis by simp
qed

subsection \<open>The number of walls\<close>

lemma first_wall_kept:
  "list_all (\<lambda>k. list_all (\<lambda>c. isSolvable (grid3 k [c]) = Some True) (possibleWalls 3)) keys3"
  by code_simp

lemma second_wall_kept:
  "list_all (\<lambda>k. list_all (\<lambda>c. isSolvable (grid3 k [c, secondWall c]) = Some True) (possibleWalls 3)) keys3"
  by code_simp


lemma hasWall_cong: "walls s = walls t \<Longrightarrow> hasWall s cx cy d = hasWall t cx cy d"
  by (cases d) simp_all

lemma visit_cong:
  assumes "gridSize s = gridSize t" and "walls s = walls t"
  shows "visit s cur d qv = visit t cur d qv"
proof (cases d)
  case (fields dx dy m)
  obtain q v where "qv = (q, v)" by (cases qv)
  with fields assms(1) hasWall_cong [OF assms(2)] show ?thesis
    by (simp add: Let_def)
qed

lemma hasPath_loop_cong:
  assumes "gridSize s = gridSize t" and "walls s = walls t"
  shows "hasPath_loop s goal queue visited = hasPath_loop t goal queue visited"
proof (induction queue visited rule: hasPath_loop_induct [where s = s and goal = goal])
  case (empty visited)
  show ?case by (simp add: hasPath_loop_empty)
next
  case (found cur rest visited)
  then show ?case by (simp add: hasPath_loop_found)
next
  case (expand cur rest visited queue' visited')
  have "visit s cur = visit t cur"
    using visit_cong [OF assms] by blast
  with expand.hyps(2) have "fold (visit t cur) dirs (rest, visited) = (queue', visited')" by simp
  from hasPath_loop_expand [OF expand.hyps(1) this] hasPath_loop_expand [OF expand.hyps(1,2)]
    expand.IH
  show ?case by simp
qed

lemma isSolvable_cong:
  assumes "gridSize s = gridSize t" and "walls s = walls t" and "avatarPos s = avatarPos t"
    and "keyPos s = keyPos t" and "doorPos s = doorPos t"
  shows "isSolvable s = isSolvable t"
proof -
  have h: "hasPath s = hasPath t"
    by (intro ext) (simp add: hasPath_def hasPath_loop_cong [OF assms(1,2)])
  show ?thesis unfolding isSolvable_def h assms(3-5) ..
qed

lemma isSolvable_returns: "\<exists>b. isSolvable s = Some b"
proof -
  obtain b where b: "hasPath s (avatarPos s) (keyPos s) = Some b"
    using hasPath_loop_returns unfolding hasPath_def by blast
  obtain c where c: "hasPath s (keyPos s) (doorPos s) = Some c"
    using hasPath_loop_returns unfolding hasPath_def by blast
  from b c show ?thesis by (cases b) (auto simp: isSolvable_def)
qed

lemma addWalls_returns: "\<exists>s'. addWalls t cs a s = Some s'"
proof (induction cs arbitrary: a s)
  case Nil
  show ?case by simp
next
  case (Cons w cs)
  obtain b where "isSolvable (s\<lparr>walls := walls s @ [w]\<rparr>) = Some b"
    using isSolvable_returns by blast
  with Cons.IH show ?case by (simp add: Let_def)
qed

lemma addWalls_full: "t \<le> a \<Longrightarrow> addWalls t cs a s = Some s"
  by (cases cs) simp_all

lemma addWalls_one_more:
  assumes "a + 1 = t" and "\<exists>c \<in> set cs. isSolvable (s\<lparr>walls := walls s @ [c]\<rparr>) = Some True"
  shows "\<exists>s'. addWalls t cs a s = Some s' \<and> length (walls s') = length (walls s) + 1"
  using assms(2)
proof (induction cs)
  case Nil
  then show ?case by simp
next
  case (Cons w cs)
  from assms(1) have lt: "\<not> t \<le> a" by simp
  obtain b where b: "isSolvable (s\<lparr>walls := walls s @ [w]\<rparr>) = Some b"
    using isSolvable_returns by blast
  show ?case
  proof (cases b)
    case True
    with b lt have "addWalls t (w # cs) a s = addWalls t cs (a + 1) (s\<lparr>walls := walls s @ [w]\<rparr>)"
      by (simp add: Let_def)
    also have "\<dots> = Some (s\<lparr>walls := walls s @ [w]\<rparr>)"
      using assms(1) by (intro addWalls_full) simp
    finally show ?thesis by simp
  next
    case False
    with b lt have "addWalls t (w # cs) a s = addWalls t cs a s"
      by (simp add: Let_def)
    moreover from Cons.prems b False
    have "\<exists>c \<in> set cs. isSolvable (s\<lparr>walls := walls s @ [c]\<rparr>) = Some True" by auto
    ultimately show ?thesis using Cons.IH by simp
  qed
qed

lemma keys3_complete:
  assumes "inGrid 3 k" and "k \<noteq> Pos 0 2" and "k \<noteq> Pos 2 0"
  shows "k \<in> set keys3"
proof (cases k)
  case (Pos a b)
  with assms(1) have "a = 0 \<or> a = 1 \<or> a = 2" "b = 0 \<or> b = 1 \<or> b = 2"
    by (auto simp: inGrid_def)
  with assms(2,3) Pos show ?thesis by (auto simp: keys3_def)
qed

lemma secondWall_other: "c \<in> set (possibleWalls 3) \<Longrightarrow> secondWall c \<in> set (possibleWalls 3) - {c}"
  by (auto simp: secondWall_def set_possibleWalls)

lemma addWalls_two_of_three:
  assumes k: "k \<in> set keys3"
    and perm: "mset cands = mset (possibleWalls 3)"
    and s: "gridSize s = 3" "avatarPos s = Pos 0 2" "doorPos s = Pos 2 0" "keyPos s = k" "walls s = []"
  shows "\<exists>s'. addWalls 2 cands 0 s = Some s' \<and> length (walls s') = 2"
proof -
  from perm have set: "set cands = set (possibleWalls 3)" by (rule mset_eq_setD)
  have "possibleWalls 3 \<noteq> []" by (simp add: possibleWalls_def upto.simps)
  with perm obtain c rest where cands: "cands = c # rest" by (cases cands) auto
  with set have c: "c \<in> set (possibleWalls 3)" by auto
  let ?s1 = "s\<lparr>walls := walls s @ [c]\<rparr>"
  have "isSolvable ?s1 = isSolvable (grid3 k [c])"
    by (rule isSolvable_cong) (simp_all add: s grid3_def initialSTATE_def)
  also have "\<dots> = Some True"
    using first_wall_kept k c by (simp add: list_all_iff)
  finally have 1: "addWalls 2 cands 0 s = addWalls 2 rest 1 ?s1"
    by (simp add: cands Let_def)
  from secondWall_other [OF c] set cands have 2: "secondWall c \<in> set rest" by auto
  have "isSolvable (?s1\<lparr>walls := walls ?s1 @ [secondWall c]\<rparr>) = isSolvable (grid3 k [c, secondWall c])"
    by (rule isSolvable_cong) (simp_all add: s grid3_def initialSTATE_def)
  also have "\<dots> = Some True"
    using second_wall_kept k c by (simp add: list_all_iff)
  finally have "\<exists>e \<in> set rest. isSolvable (?s1\<lparr>walls := walls ?s1 @ [e]\<rparr>) = Some True"
    using 2 by blast
  from addWalls_one_more [OF _ this, of 1 2] obtain s' where
    "addWalls 2 rest 1 ?s1 = Some s'" "length (walls s') = length (walls ?s1) + 1" by auto
  with 1 s(5) have "addWalls 2 cands 0 s = Some s' \<and> length (walls s') = 2" by simp
  then show ?thesis ..
qed

lemma keyLoop_step:
  "keyLoop rnd i s =
     (if keyDraw rnd (gridSize s) i = avatarPos s \<or> keyDraw rnd (gridSize s) i = doorPos s
      then keyLoop rnd (i + 2) (s\<lparr>keyPos := keyDraw rnd (gridSize s) i\<rparr>)
      else Some (s\<lparr>keyPos := keyDraw rnd (gridSize s) i\<rparr>))"
  by (subst keyLoop.simps) (simp add: Let_def keyDraw_def pos_eq_iff)

lemma keyLoop_returns:
  assumes "keyDraw rnd (gridSize s) (i + 2 * k) \<noteq> avatarPos s"
    and "keyDraw rnd (gridSize s) (i + 2 * k) \<noteq> doorPos s"
  shows "\<exists>s'. keyLoop rnd i s = Some s'"
  using assms
proof (induction k arbitrary: i s)
  case 0
  then show ?case by (subst keyLoop_step) simp
next
  case (Suc k)
  let ?t = "s\<lparr>keyPos := keyDraw rnd (gridSize s) i\<rparr>"
  from Suc.prems have "keyDraw rnd (gridSize ?t) (i + 2 + 2 * k) \<noteq> avatarPos ?t"
    "keyDraw rnd (gridSize ?t) (i + 2 + 2 * k) \<noteq> doorPos ?t"
    by (simp_all add: add.assoc)
  then have "\<exists>s'. keyLoop rnd (i + 2) ?t = Some s'" by (rule Suc.IH)
  then show ?case by (subst keyLoop_step) simp
qed

lemma generateLevel_returns:
  assumes "keyDraw rnd (gridSize s) (2 * k) \<noteq> Pos 0 (gridSize s - 1)"
    and "keyDraw rnd (gridSize s) (2 * k) \<noteq> Pos (gridSize s - 1) 0"
  shows "\<exists>s'. generateLevel cfg rnd shuffle s = Some s'"
proof -
  let ?s2 = "s\<lparr>avatarPos := Pos 0 (gridSize s - 1), doorPos := Pos (gridSize s - 1) 0\<rparr>"
  from assms have "\<exists>s3. keyLoop rnd 0 ?s2 = Some s3"
    by (intro keyLoop_returns [where k = k]) simp_all
  then obtain s3 where "keyLoop rnd 0 ?s2 = Some s3" ..
  then show ?thesis
    using addWalls_returns by (simp add: generateLevel_def Let_def)
qed

text \<open>
  Claim C5. A level returned by \<^verbatim>\<open>generateLevel\<close> for a target of at least 0 has at most
  that many walls. On the 3x3 grid with target 2, random numbers in [0, 1) and a sort that
  leaves a permutation of the candidates, a returned level has exactly 2 walls. And
  \<^verbatim>\<open>generateLevel\<close> does return as soon as one of the pairs of random numbers drawn for
  the key gives a cell other than start and door.
\<close>

theorem generated_wall_count:
  "(generateLevel cfg rnd shuffle s = Some s' \<and> 0 \<le> cfg_walls (cfg (difficulty s))
      \<longrightarrow> int (length (walls s')) \<le> cfg_walls (cfg (difficulty s))) \<and>
   (generateLevel cfg rnd shuffle s = Some s' \<and> gridSize s = 3 \<and> cfg_walls (cfg (difficulty s)) = 2 \<and>
    (\<forall>i. 0 \<le> rnd i \<and> rnd i < 1) \<and> mset (shuffle (possibleWalls 3)) = mset (possibleWalls 3)
      \<longrightarrow> length (walls s') = 2) \<and>
   ((\<exists>k. keyDraw rnd (gridSize s) (2 * k) \<noteq> Pos 0 (gridSize s - 1) \<and>
         keyDraw rnd (gridSize s) (2 * k) \<noteq> Pos (gridSize s - 1) 0)
      \<longrightarrow> (\<exists>s''. generateLevel cfg rnd shuffle s = Some s''))"
proof (intro conjI impI)
  assume "generateLevel cfg rnd shuffle s = Some s' \<and> 0 \<le> cfg_walls (cfg (difficulty s))"
  then have g: "generateLevel cfg rnd shuffle s = Some s'"
    and t: "0 \<le> cfg_walls (cfg (difficulty s))" by simp_all
  from g obtain j where
    "addWalls (cfg_walls (cfg (difficulty s))) (shuffle (possibleWalls (gridSize s))) 0
       (s\<lparr>avatarPos := Pos 0 (gridSize s - 1), doorPos := Pos (gridSize s - 1) 0,
          keyPos := keyDraw rnd (gridSize s) j, walls := []\<rparr>) = Some s'"
    by (rule generateLevel_unfold)
  from addWalls_walls [OF this] t
  show "int (length (walls s')) \<le> cfg_walls (cfg (difficulty s))" by auto
next
  assume "generateLevel cfg rnd shuffle s = Some s' \<and> gridSize s = 3 \<and> cfg_walls (cfg (difficulty s)) = 2 \<and>
    (\<forall>i. 0 \<le> rnd i \<and> rnd i < 1) \<and> mset (shuffle (possibleWalls 3)) = mset (possibleWalls 3)"
  then have g: "generateLevel cfg rnd shuffle s = Some s'" and n: "gridSize s = 3"
    and t: "cfg_walls (cfg (difficulty s)) = 2" and r: "\<forall>i. 0 \<le> rnd i \<and> rnd i < 1"
    and p: "mset (shuffle (possibleWalls 3)) = mset (possibleWalls 3)" by simp_all
  let ?s4 = "\<lambda>j. s\<lparr>avatarPos := Pos 0 2, doorPos := Pos 2 0, keyPos := keyDraw rnd 3 j, walls := []\<rparr>"
  from g obtain j where k: "keyDraw rnd 3 j \<noteq> Pos 0 2" "keyDraw rnd 3 j \<noteq> Pos 2 0"
    and a: "addWalls 2 (shuffle (possibleWalls 3)) 0 (?s4 j) = Some s'"
    by (rule generateLevel_unfold) (simp add: n t)
  from r have "inGrid 3 (keyDraw rnd 3 j)" by (intro keyDraw_inGrid) simp_all
  then have "keyDraw rnd 3 j \<in> set keys3" using k by (rule keys3_complete)
  from addWalls_two_of_three [OF this p, of "?s4 j"] a
  show "length (walls s') = 2" by (simp add: n)
next
  assume "\<exists>k. keyDraw rnd (gridSize s) (2 * k) \<noteq> Pos 0 (gridSize s - 1) \<and>
         keyDraw rnd (gridSize s) (2 * k) \<noteq> Pos (gridSize s - 1) 0"
  then show "\<exists>s''. generateLevel cfg rnd shuffle s = Some s''"
    using generateLevel_returns by blast
qed


theorem generated_wall_count_witness:
  "generateLevel CONFIG (\<lambda>i. 1 / 2) rev initialSTATE = Some generatedDemo \<and>
   0 \<le> cfg_walls (CONFIG (difficulty initialSTATE)) \<and>
   gridSize initialSTATE = 3 \<and> cfg_walls (CONFIG (difficulty initialSTATE)) = 2 \<and>
   (\<forall>i::nat. (0::real) \<le> 1 / 2 \<and> (1 / 2 :: real) < 1) \<and>
   mset (rev (possibleWalls 3)) = mset (possibleWalls 3) \<and>
   keyDraw (\<lambda>i. 1 / 2) (gridSize initialSTATE) (2 * 0) = Pos 1 1 \<and>
   length (walls generatedDemo) = 2"
proof -
  have h1: "0 \<le> cfg_walls (CONFIG (difficulty initialSTATE))" by (simp add: initialSTATE_def)
  have h2: "gridSize initialSTATE = 3" by (simp add: initialSTATE_def)
  have h3: "cfg_walls (CONFIG (difficulty initialSTATE)) = 2" by (simp add: initialSTATE_def)
  have h4: "\<forall>i::nat. (0::real) \<le> (\<lambda>i. 1 / 2) i \<and> (\<lambda>i. 1 / 2) i < (1::real)" by simp
  have h5: "mset (rev (possibleWalls 3)) = mset (possibleWalls 3)" by simp
  have h6: "keyDraw (\<lambda>i. 1 / 2) (gridSize initialSTATE) (2 * 0) = Pos 1 1"
    by (simp add: keyDraw_def initialSTATE_def)
  from generated_wall_count [of CONFIG "\<lambda>i. 1 / 2" rev initialSTATE generatedDemo]
    generateLevel_demo h1 h2 h3 h4 h5 h6
  show ?thesis by simp
qed

section \<open>The claims about moving\<close>

text \<open>
  Claim C8. A move whose target cell lies outside the grid leaves the whole state as it
  was: position, attempts, key flag, revealed walls, and the trace of effects (nothing is
  rendered, nothing is announced).
\<close>

theorem moveAvatar_outside_grid_noop:
  assumes "\<not> inGrid (gridSize s) (neighbour d (avatarPos s))"
  shows "moveAvatar d now s = s"
  using assms by (simp add: moveAvatar_cases)

theorem moveAvatar_outside_grid_noop_witness:
  "\<not> inGrid (gridSize demoLevel) (neighbour DLeft (avatarPos demoLevel)) \<and>
   moveAvatar DLeft 7 demoLevel = demoLevel"
proof -
  have h: "\<not> inGrid (gridSize demoLevel) (neighbour DLeft (avatarPos demoLevel))"
    by (simp add: demoLevel_def inGrid_def)
  from h moveAvatar_outside_grid_noop [OF h] show ?thesis by simp
qed

text \<open>
  Claim C10. A move into the grid across an edge without a wall puts the avatar on the
  neighbouring cell and leaves attempts, revealed walls, walls, key cell and door cell as
  they were; the state differs from the old one at most in the position, the key flag,
  the playing flag and the trace of effects.
\<close>

theorem moveAvatar_open_edge_frame:
  assumes "inGrid (gridSize s) (neighbour d (avatarPos s))"
    and "\<not> hasWall s (pos_x (avatarPos s)) (pos_y (avatarPos s)) d"
  shows "avatarPos (moveAvatar d now s) = neighbour d (avatarPos s) \<and>
         attempts (moveAvatar d now s) = attempts s \<and>
         revealedWalls (moveAvatar d now s) = revealedWalls s \<and>
         walls (moveAvatar d now s) = walls s \<and>
         keyPos (moveAvatar d now s) = keyPos s \<and>
         doorPos (moveAvatar d now s) = doorPos s \<and>
         moveAvatar d now s =
           s\<lparr>avatarPos := neighbour d (avatarPos s),
             hasKey := hasKey (moveAvatar d now s),
             isPlaying := isPlaying (moveAvatar d now s),
             effects := effects (moveAvatar d now s)\<rparr>"
  using assms
  by (simp add: moveAvatar_cases checkEntityCollision_def endGame_def emit_def Let_def)

theorem moveAvatar_open_edge_frame_witness:
  "inGrid (gridSize demoLevel) (neighbour DTop (avatarPos demoLevel)) \<and>
   \<not> hasWall demoLevel (pos_x (avatarPos demoLevel)) (pos_y (avatarPos demoLevel)) DTop \<and>
   avatarPos (moveAvatar DTop 7 demoLevel) = Pos 0 1 \<and>
   attempts (moveAvatar DTop 7 demoLevel) = 0 \<and>
   revealedWalls (moveAvatar DTop 7 demoLevel) = []"
proof -
  have h1: "inGrid (gridSize demoLevel) (neighbour DTop (avatarPos demoLevel))"
    by (simp add: demoLevel_def inGrid_def)
  have h2: "\<not> hasWall demoLevel (pos_x (avatarPos demoLevel)) (pos_y (avatarPos demoLevel)) DTop"
    by (simp add: demoLevel_def)
  from moveAvatar_open_edge_frame [OF h1 h2, of 7] h1 h2 show ?thesis
    by (simp add: demoLevel_def)
qed

text \<open>
  Claim C2. A move into the grid across an edge that has a wall adds one to the attempts,
  the canonical edge crossed is a wall of the maze and is appended to the revealed walls
  unless it is there already, and the avatar is back on the start cell (0, N - 1).
\<close>

theorem collision_effects:
  assumes "inGrid (gridSize s) (neighbour d (avatarPos s))"
    and "hasWall s (pos_x (avatarPos s)) (pos_y (avatarPos s)) d"
  shows "attempts (moveAvatar d now s) = attempts s + 1 \<and>
         wallKey (pos_x (avatarPos s)) (pos_y (avatarPos s)) d \<in> set (walls s) \<and>
         revealedWalls (moveAvatar d now s) =
           (if wallKey (pos_x (avatarPos s)) (pos_y (avatarPos s)) d \<in> set (revealedWalls s)
            then revealedWalls s
            else revealedWalls s @ [wallKey (pos_x (avatarPos s)) (pos_y (avatarPos s)) d]) \<and>
         set (revealedWalls (moveAvatar d now s)) =
           insert (wallKey (pos_x (avatarPos s)) (pos_y (avatarPos s)) d) (set (revealedWalls s)) \<and>
         avatarPos (moveAvatar d now s) = Pos 0 (gridSize s - 1)"
  using assms
  by (auto simp: moveAvatar_cases handleCollision_fields hasWall_wallKey)

theorem collision_effects_witness:
  "inGrid (gridSize demoLevel) (neighbour DRight (avatarPos demoLevel)) \<and>
   hasWall demoLevel (pos_x (avatarPos demoLevel)) (pos_y (avatarPos demoLevel)) DRight \<and>
   attempts (moveAvatar DRight 7 demoLevel) = 1 \<and>
   revealedWalls (moveAvatar DRight 7 demoLevel) = [Wall 0 2 DRight] \<and>
   avatarPos (moveAvatar DRight 7 demoLevel) = Pos 0 2"
proof -
  have h1: "inGrid (gridSize demoLevel) (neighbour DRight (avatarPos demoLevel))"
    by (simp add: demoLevel_def inGrid_def)
  have h2: "hasWall demoLevel (pos_x (avatarPos demoLevel)) (pos_y (avatarPos demoLevel)) DRight"
    by (simp add: demoLevel_def)
  from collision_effects [OF h1 h2, of 7] h1 h2 show ?thesis
    by (simp add: demoLevel_def)
qed

text \<open>
  Claim C4. A collision leaves the key flag as it was; once the key is held it stays held
  through any sequence of moves; the flag is false after \<^verbatim>\<open>startGame\<close>, which
  generates the new level.
\<close>

theorem key_kept_through_collisions:
  "(inGrid (gridSize s) (neighbour d (avatarPos s)) \<and>
      hasWall s (pos_x (avatarPos s)) (pos_y (avatarPos s)) d
      \<longrightarrow> hasKey (moveAvatar d now s) = hasKey s) \<and>
   (hasKey s \<longrightarrow> hasKey (moves ds s)) \<and>
   (startGame cfg rnd shuffle r now s = Some s' \<longrightarrow> \<not> hasKey s')"
  by (simp add: moveAvatar_cases handleCollision_fields moves_hasKey startGame_fields)

lemma startGame_demo:
  "startGame CONFIG (\<lambda>i. 1 / 2) rev True 5 initialSTATE =
     Some \<lparr>difficulty = EASY, mode = PRACTICE, gridSize = 3, avatarPos = Pos 0 2,
       keyPos = Pos 1 1, doorPos = Pos 2 0, hasKey = False, attempts = 0,
       startTime = 5, walls = [Wall 1 2 DRight, Wall 1 1 DRight],
       revealedWalls = [], currentLevel = 1, isPlaying = True, timerInterval = True,
       effects = [RenderGrid, UpdateStats, StartTimer, HideScreen ScreenStart,
                  HideScreen ScreenSuccess]\<rparr>"
  by code_simp

theorem key_kept_through_collisions_witness:
  "inGrid (gridSize (demoLevel\<lparr>hasKey := True\<rparr>)) (neighbour DRight (avatarPos (demoLevel\<lparr>hasKey := True\<rparr>))) \<and>
   hasWall (demoLevel\<lparr>hasKey := True\<rparr>) (pos_x (avatarPos (demoLevel\<lparr>hasKey := True\<rparr>)))
     (pos_y (avatarPos (demoLevel\<lparr>hasKey := True\<rparr>))) DRight \<and>
   hasKey (demoLevel\<lparr>hasKey := True\<rparr>) \<and>
   hasKey (moveAvatar DRight 7 (demoLevel\<lparr>hasKey := True\<rparr>)) \<and>
   hasKey (moves [(DRight, 7), (DTop, 8), (DTop, 9), (DRight, 10)] (demoLevel\<lparr>hasKey := True\<rparr>)) \<and>
   (\<exists>s'. startGame CONFIG (\<lambda>i. 1 / 2) rev True 5 initialSTATE = Some s' \<and> \<not> hasKey s')"
proof -
  let ?s = "demoLevel\<lparr>hasKey := True\<rparr>"
  have h1: "inGrid (gridSize ?s) (neighbour DRight (avatarPos ?s))"
    by (simp add: demoLevel_def inGrid_def)
  have h2: "hasWall ?s (pos_x (avatarPos ?s)) (pos_y (avatarPos ?s)) DRight"
    by (simp add: demoLevel_def)
  have h3: "hasKey ?s" by simp
  from key_kept_through_collisions [of ?s DRight 7 "[(DRight, 7), (DTop, 8), (DTop, 9), (DRight, 10)]"
      CONFIG "\<lambda>i. 1 / 2" rev True] h1 h2 h3
  have "hasKey (moveAvatar DRight 7 ?s)"
    and "hasKey (moves [(DRight, 7), (DTop, 8), (DTop, 9), (DRight, 10)] ?s)"
    by simp_all
  moreover
  from key_kept_through_collisions [of initialSTATE DRight 5 "[]" CONFIG "\<lambda>i. 1 / 2" rev True]
    startGame_demo
  have "\<exists>s'. startGame CONFIG (\<lambda>i. 1 / 2) rev True 5 initialSTATE = Some s' \<and> \<not> hasKey s'"
    by simp
  ultimately show ?thesis using h1 h2 h3 by blast
qed

text \<open>
  Claim C6. From the start of a level on, through any sequence of moves, the revealed
  walls are walls of the maze (which the moves do not change), no move removes a revealed
  wall, and the list is empty when the level starts.
\<close>

theorem revealed_subset_monotone:
  assumes "startGame cfg rnd shuffle r now0 s0 = Some s"
  shows "revealedWalls s = [] \<and>
         walls (moves ds s) = walls s \<and>
         set (revealedWalls (moves ds s)) \<subseteq> set (walls s) \<and>
         set (revealedWalls (moves ds s)) \<subseteq> set (revealedWalls (moveAvatar d now (moves ds s)))"
proof -
  from startGame_fields(2) [OF assms] have e: "revealedWalls s = []" .
  then have "set (revealedWalls s) \<subseteq> set (walls s)" by simp
  from moves_revealed_inv [OF this, of ds]
  have "set (revealedWalls (moves ds s)) \<subseteq> set (walls s)" by (simp add: moves_walls)
  with e show ?thesis by (simp add: moves_walls moveAvatar_revealed_mono)
qed

theorem revealed_subset_monotone_witness:
  "\<exists>s. startGame CONFIG (\<lambda>i. 1 / 2) rev True 5 initialSTATE = Some s \<and>
       revealedWalls s = [] \<and>
       set (revealedWalls (moves [(DRight, 6), (DRight, 7)] s)) \<subseteq> set (walls s) \<and>
       set (revealedWalls (moves [(DRight, 6), (DRight, 7)] s))
         \<subseteq> set (revealedWalls (moveAvatar DTop 8 (moves [(DRight, 6), (DRight, 7)] s)))"
  using revealed_subset_monotone [OF startGame_demo, of "[(DRight, 6), (DRight, 7)]" DTop 8]
    startGame_demo by simp

text \<open>
  In CHALLENGE mode a collision ends the run, and the keyboard handler then ignores every
  key. \<^verbatim>\<open>moveAvatar\<close> has no such test of its own.
\<close>

lemma challenge_collision_ends_run:
  assumes "mode s = CHALLENGE"
    and "inGrid (gridSize s) (neighbour d (avatarPos s))"
    and "hasWall s (pos_x (avatarPos s)) (pos_y (avatarPos s)) d"
  shows "isPlaying (moveAvatar d now s) = False"
    and "\<exists>es. effects (moveAvatar d now s) = es @ [ClearTimer, Alert, ShowScreen ScreenStart]"
  using assms
  by (simp_all add: moveAvatar_cases handleCollision_def endGame_def emit_def Let_def)

lemma handleInput_not_playing: "\<not> isPlaying s \<Longrightarrow> handleInput k now s = s"
  by (simp add: handleInput_def)

text \<open>
  Claim C3, evaluated on the demonstration level in CHALLENGE mode. Crossing the wall to
  the right of the start cell ends the run (\<^verbatim>\<open>endGame(false)\<close>: the playing flag is
  cleared, the alert is shown, the start screen comes back). After that the keyboard
  handler ignores a key, but \<^verbatim>\<open>moveAvatar\<close> itself, which the on-screen buttons call
  directly, still moves the avatar and still counts a further collision.
\<close>

theorem challenge_collision_then_move:
  "isPlaying (moveAvatar DRight 7 (demoLevel\<lparr>mode := CHALLENGE\<rparr>)) = False \<and>
   effects (moveAvatar DRight 7 (demoLevel\<lparr>mode := CHALLENGE\<rparr>)) =
     [UpdateStats, RenderGrid, FlashBackground, ClearTimer, Alert, ShowScreen ScreenStart] \<and>
   avatarPos (moveAvatar DRight 7 (demoLevel\<lparr>mode := CHALLENGE\<rparr>)) = Pos 0 2 \<and>
   attempts (moveAvatar DRight 7 (demoLevel\<lparr>mode := CHALLENGE\<rparr>)) = 1 \<and>
   handleInput ''ArrowUp'' 8 (moveAvatar DRight 7 (demoLevel\<lparr>mode := CHALLENGE\<rparr>)) =
     moveAvatar DRight 7 (demoLevel\<lparr>mode := CHALLENGE\<rparr>) \<and>
   avatarPos (moveAvatar DTop 8 (moveAvatar DRight 7 (demoLevel\<lparr>mode := CHALLENGE\<rparr>))) = Pos 0 1 \<and>
   attempts (moveAvatar DRight 8 (moveAvatar DRight 7 (demoLevel\<lparr>mode := CHALLENGE\<rparr>))) = 2"
  by (simp add: demoLevel_def moveAvatar_def handleCollision_def endGame_def emit_def
      checkEntityCollision_def handleInput_def Let_def)

end
